theory Spec2Isabelle
  imports Main "HOL-Library.Word" "HOL-Library.Multiset"
begin

unbundle bit_operations_syntax

section \<open>The optimizing compile dispatcher (optimizing-compile-dispatcher.cc)\<close>

text \<open>
  \<open>CompilationJob::Status\<close>, as far as the two dispatchers use it. What a job's
  Execute phase returns is decided by the compiler, outside the dispatcher: every function
  below that runs a job takes \<open>ExecuteJob\<close> as an argument.
\<close>

datatype Status = SUCCEEDED | FAILED

text \<open>
  The calls a dispatcher makes on its \<open>job_handle_\<close> and on the platform, in order.
  The handle belongs to the embedder's thread pool; the dispatchers only call it.
\<close>

datatype JobHandleCall = PostJob | Join | Cancel | NotifyConcurrencyIncrease

datatype BlockingBehavior = kBlock | kDontBlock

text \<open>
  The dispatcher object. \<open>input_queue\<close> is the array of \<open>input_queue_capacity\<close> job
  pointers, used as a ring buffer through \<open>input_queue_shift\<close> and
  \<open>input_queue_length\<close> (all three are C++ \<open>int\<close>). \<open>output_queue\<close> is the
  \<open>std::queue\<close>, front first. A job pointer is a value of type \<open>'job\<close>.
  \<open>in_flight\<close> holds the jobs a worker has taken with \<open>NextInput\<close> and not yet
  handed to \<open>CompileNext\<close>. \<open>disposed\<close> and \<open>finalized\<close> record the calls of
  \<open>Compiler::DisposeTurbofanCompilationJob\<close> (with its \<open>restore_function_code\<close>
  argument) and \<open>Compiler::FinalizeTurbofanCompilationJob\<close>, \<open>heap\<close> is the isolate
  state those two calls act on, \<open>install_requests\<close> counts
  \<open>RequestInstallCode\<close>.
\<close>

record ('job, 'heap) OptimizingCompileDispatcher =
  input_queue :: "'job list"
  input_queue_capacity :: int
  input_queue_length :: int
  input_queue_shift :: int
  output_queue :: "'job list"
  in_flight :: "'job list"
  job_handle :: "JobHandleCall list"
  finalize_flag :: bool
  install_requests :: nat
  disposed :: "('job \<times> bool) list"
  finalized :: "'job list"
  heap :: 'heap

text \<open>
  Modelled from the spec: \<open>InputQueueIndex\<close> is declared in the dispatcher's header,
  which is not among the sources; the spec gives it as "index arithmetic modulo capacity
  if using a ring buffer", relative to the current shift.
\<close>

definition InputQueueIndex :: "('job, 'heap) OptimizingCompileDispatcher \<Rightarrow> int \<Rightarrow> int" where
  "InputQueueIndex d i = (i + input_queue_shift d) mod input_queue_capacity d"

definition InputQueueLength :: "('job, 'heap) OptimizingCompileDispatcher \<Rightarrow> int" where
  "InputQueueLength d = input_queue_length d"

text \<open>\<open>NextInput\<close>: \<open>None\<close> is the null pointer.\<close>

definition NextInput ::
  "('job, 'heap) OptimizingCompileDispatcher \<Rightarrow> 'job option \<times> ('job, 'heap) OptimizingCompileDispatcher" where
  "NextInput d =
     (if input_queue_length d = 0 then (None, d)
      else
        let job = input_queue d ! nat (InputQueueIndex d 0) in
        (Some job,
         d\<lparr>input_queue_shift := InputQueueIndex d 1,
           input_queue_length := input_queue_length d - 1\<rparr>))"

text \<open>
  \<open>QueueForOptimization\<close>. The two \<open>DCHECK\<close>s (queue available, length below capacity)
  are debug assertions and compile to nothing in a release build: the store and the
  increment happen whatever the length is.
\<close>

definition QueueForOptimization ::
  "('job, 'heap) OptimizingCompileDispatcher \<Rightarrow> 'job \<Rightarrow> ('job, 'heap) OptimizingCompileDispatcher" where
  "QueueForOptimization d job =
     d\<lparr>input_queue :=
         (input_queue d)[nat (InputQueueIndex d (input_queue_length d)) := job],
       input_queue_length := input_queue_length d + 1,
       job_handle := job_handle d @ [NotifyConcurrencyIncrease]\<rparr>"

text \<open>
  \<open>GetMaxConcurrency\<close>. The task of each dispatcher has the same function body, on
  its own queue length and its own flag (\<open>concurrent_turbofan_max_threads\<close>,
  \<open>concurrent_maglev_max_threads\<close>). All quantities are \<open>size_t\<close>: the queue length
  and the flag are converted to \<open>size_t\<close> at the addition and at the initialisation of
  \<open>max_threads\<close>.
\<close>

type_synonym size_t = "64 word"

definition GetMaxConcurrency :: "size_t \<Rightarrow> size_t \<Rightarrow> size_t \<Rightarrow> size_t" where
  "GetMaxConcurrency max_threads_flag queue_length worker_count =
     (let num_tasks = queue_length + worker_count;
          max_threads = max_threads_flag
      in if max_threads > 0 then min max_threads num_tasks else num_tasks)"

definition CompileTask_GetMaxConcurrency ::
  "size_t \<Rightarrow> ('job, 'heap) OptimizingCompileDispatcher \<Rightarrow> size_t \<Rightarrow> size_t" where
  "CompileTask_GetMaxConcurrency concurrent_turbofan_max_threads d worker_count =
     GetMaxConcurrency concurrent_turbofan_max_threads (word_of_int (InputQueueLength d))
       worker_count"

text \<open>Enqueueing a list of jobs one after the other, and calling \<open>NextInput\<close> n times.\<close>

fun enqueue_all ::
  "('job, 'heap) OptimizingCompileDispatcher \<Rightarrow> 'job list \<Rightarrow> ('job, 'heap) OptimizingCompileDispatcher" where
  "enqueue_all d [] = d"
| "enqueue_all d (j # js) = enqueue_all (QueueForOptimization d j) js"

fun dequeue_n ::
  "nat \<Rightarrow> ('job, 'heap) OptimizingCompileDispatcher \<Rightarrow>
   'job option list \<times> ('job, 'heap) OptimizingCompileDispatcher" where
  "dequeue_n 0 d = ([], d)"
| "dequeue_n (Suc n) d =
     (let (r, d') = NextInput d; (rs, d'') = dequeue_n n d' in (r # rs, d''))"

text \<open>
  The representation invariant of the ring buffer, and the jobs it holds from front to
  back.
\<close>

definition queue_inv :: "('job, 'heap) OptimizingCompileDispatcher \<Rightarrow> bool" where
  "queue_inv d \<longleftrightarrow>
     0 < input_queue_capacity d \<and>
     length (input_queue d) = nat (input_queue_capacity d) \<and>
     0 \<le> input_queue_shift d \<and> input_queue_shift d < input_queue_capacity d \<and>
     0 \<le> input_queue_length d \<and> input_queue_length d \<le> input_queue_capacity d"

definition queue_contents :: "('job, 'heap) OptimizingCompileDispatcher \<Rightarrow> 'job list" where
  "queue_contents d =
     map (\<lambda>i. input_queue d ! nat (InputQueueIndex d (int i)))
       [0 ..< nat (input_queue_length d)]"

text \<open>
  What the dispatcher calls in the compiler and on the target function, none of it defined
  in the dispatcher: the Execute phase of a job, \<open>compilation_info()->is_osr()\<close>,
  \<open>function->HasAvailableCodeKind(info->code_kind())\<close> on the current heap, and the
  effect on the heap of disposing of a job (with \<open>restore_function_code\<close>) and of
  finalizing it.
\<close>

record ('job, 'heap) Compiler =
  ExecuteJob :: "'job \<Rightarrow> Status"
  is_osr :: "'job \<Rightarrow> bool"
  HasAvailableCodeKind :: "'heap \<Rightarrow> 'job \<Rightarrow> bool"
  DisposeTurbofanCompilationJob :: "'job \<Rightarrow> bool \<Rightarrow> 'heap \<Rightarrow> 'heap"
  FinalizeTurbofanCompilationJob :: "'job \<Rightarrow> 'heap \<Rightarrow> 'heap"

text \<open>
  \<open>CompileNext\<close>. The status of \<open>ExecuteJob\<close> is computed and then only passed to
  \<open>USE\<close>; the push to the output queue does not depend on it.
\<close>

definition CompileNext ::
  "('job, 'heap) Compiler \<Rightarrow> 'job option \<Rightarrow> ('job, 'heap) OptimizingCompileDispatcher \<Rightarrow>
   ('job, 'heap) OptimizingCompileDispatcher" where
  "CompileNext c job_ptr d =
     (case job_ptr of
        None \<Rightarrow> d
      | Some job \<Rightarrow>
          let status = ExecuteJob c job;
              d1 = d\<lparr>output_queue := output_queue d @ [job]\<rparr>
          in if finalize_flag d1 then d1\<lparr>install_requests := install_requests d1 + 1\<rparr>
             else d1)"

text \<open>
  \<open>CompileTask::Run\<close>. The list holds the answers of \<open>delegate->ShouldYield()\<close>, one
  per call; when the scheduler has no further answer the task stops as if asked to
  yield. The artificial delay has no effect on the state.
\<close>

fun CompileTask_Run ::
  "bool list \<Rightarrow> ('job, 'heap) Compiler \<Rightarrow> ('job, 'heap) OptimizingCompileDispatcher \<Rightarrow>
   ('job, 'heap) OptimizingCompileDispatcher" where
  "CompileTask_Run [] c d = d"
| "CompileTask_Run (should_yield # ys) c d =
     (if should_yield then d
      else case NextInput d of
             (None, d') \<Rightarrow> d'
           | (Some job, d') \<Rightarrow> CompileTask_Run ys c (CompileNext c (Some job) d'))"

text \<open>\<open>FlushOutputQueue\<close>: pop the front job and dispose of it, until the queue is empty.\<close>

function FlushOutputQueue ::
  "('job, 'heap) Compiler \<Rightarrow> bool \<Rightarrow> ('job, 'heap) OptimizingCompileDispatcher \<Rightarrow>
   ('job, 'heap) OptimizingCompileDispatcher" where
  "FlushOutputQueue c restore_function_code d =
     (case output_queue d of
        [] \<Rightarrow> d
      | job # rest \<Rightarrow>
          FlushOutputQueue c restore_function_code
            (d\<lparr>output_queue := rest,
               disposed := disposed d @ [(job, restore_function_code)],
               heap := DisposeTurbofanCompilationJob c job restore_function_code (heap d)\<rparr>))"
  by pat_completeness auto
termination
  by (relation "measure (\<lambda>(c, r, d). length (output_queue d))") auto

text \<open>\<open>FlushInputQueue\<close>: the same on the ring buffer, always restoring the function code.\<close>

function FlushInputQueue ::
  "('job, 'heap) Compiler \<Rightarrow> ('job, 'heap) OptimizingCompileDispatcher \<Rightarrow>
   ('job, 'heap) OptimizingCompileDispatcher" where
  "FlushInputQueue c d =
     (if input_queue_length d > 0 then
        let job = input_queue d ! nat (InputQueueIndex d 0) in
        FlushInputQueue c
          (d\<lparr>input_queue_shift := InputQueueIndex d 1,
             input_queue_length := input_queue_length d - 1,
             disposed := disposed d @ [(job, True)],
             heap := DisposeTurbofanCompilationJob c job True (heap d)\<rparr>)
      else d)"
  by pat_completeness auto
termination
  by (relation "measure (\<lambda>(c, d). nat (input_queue_length d))") auto

text \<open>
  Modelled from the spec: the job handle is the platform's and not among the sources.
  Joining it "blocks the calling thread until the worker pool has no running or queued
  work": every job a worker holds goes through \<open>CompileNext\<close>, and the workers then run
  \<open>CompileTask::Run\<close>, never asked to yield, until the input queue is empty.
\<close>

definition JobHandle_Join ::
  "('job, 'heap) Compiler \<Rightarrow> ('job, 'heap) OptimizingCompileDispatcher \<Rightarrow>
   ('job, 'heap) OptimizingCompileDispatcher" where
  "JobHandle_Join c d =
     (let d1 = foldl (\<lambda>s job. CompileNext c (Some job) s) (d\<lparr>in_flight := []\<rparr>) (in_flight d);
          d2 = CompileTask_Run (replicate (Suc (nat (input_queue_length d1))) False) c d1
      in d2\<lparr>job_handle := job_handle d2 @ [Join]\<rparr>)"

text \<open>\<open>AwaitCompileTasks\<close>: join, then post a new job (the check is debug-only).\<close>

definition AwaitCompileTasks ::
  "('job, 'heap) Compiler \<Rightarrow> ('job, 'heap) OptimizingCompileDispatcher \<Rightarrow>
   ('job, 'heap) OptimizingCompileDispatcher" where
  "AwaitCompileTasks c d =
     (let d1 = JobHandle_Join c d in d1\<lparr>job_handle := job_handle d1 @ [PostJob]\<rparr>)"

definition FlushQueues ::
  "('job, 'heap) Compiler \<Rightarrow> BlockingBehavior \<Rightarrow> bool \<Rightarrow>
   ('job, 'heap) OptimizingCompileDispatcher \<Rightarrow> ('job, 'heap) OptimizingCompileDispatcher" where
  "FlushQueues c blocking_behavior restore_function_code d =
     (let d1 = FlushInputQueue c d;
          d2 = (if blocking_behavior = kBlock then AwaitCompileTasks c d1 else d1)
      in FlushOutputQueue c restore_function_code d2)"

text \<open>\<open>Flush\<close> (the trace output changes no state) and \<open>Stop\<close>.\<close>

definition Flush ::
  "('job, 'heap) Compiler \<Rightarrow> BlockingBehavior \<Rightarrow>
   ('job, 'heap) OptimizingCompileDispatcher \<Rightarrow> ('job, 'heap) OptimizingCompileDispatcher" where
  "Flush c blocking_behavior d = FlushQueues c blocking_behavior True d"

definition Stop ::
  "('job, 'heap) Compiler \<Rightarrow> ('job, 'heap) OptimizingCompileDispatcher \<Rightarrow>
   ('job, 'heap) OptimizingCompileDispatcher" where
  "Stop c d = FlushQueues c kBlock False d"

text \<open>
  \<open>InstallOptimizedFunctions\<close>: each job popped from the output queue is thrown out when
  it is not an OSR job and its function already has code of the requested kind, and
  finalized otherwise.
\<close>

function InstallOptimizedFunctions ::
  "('job, 'heap) Compiler \<Rightarrow> ('job, 'heap) OptimizingCompileDispatcher \<Rightarrow>
   ('job, 'heap) OptimizingCompileDispatcher" where
  "InstallOptimizedFunctions c d =
     (case output_queue d of
        [] \<Rightarrow> d
      | job # rest \<Rightarrow>
          if \<not> is_osr c job \<and> HasAvailableCodeKind c (heap d) job then
            InstallOptimizedFunctions c
              (d\<lparr>output_queue := rest,
                 disposed := disposed d @ [(job, False)],
                 heap := DisposeTurbofanCompilationJob c job False (heap d)\<rparr>)
          else
            InstallOptimizedFunctions c
              (d\<lparr>output_queue := rest,
                 finalized := finalized d @ [job],
                 heap := FinalizeTurbofanCompilationJob c job (heap d)\<rparr>))"
  by pat_completeness auto
termination
  by (relation "measure (\<lambda>(c, d). length (output_queue d))") auto

section \<open>The Maglev concurrent dispatcher (maglev-concurrent-dispatcher.cc)\<close>

text \<open>
  The dispatcher object: the two locked queues, front first, the jobs a worker has
  dequeued and not yet executed, the calls made on the job handle, the jobs whose owning
  \<open>unique_ptr\<close> went out of scope (destroying the job), the jobs passed to
  \<open>Compiler::FinalizeMaglevCompilationJob\<close>, and the number of
  \<open>RequestInstallMaglevCode\<close> calls.
\<close>

record 'job MaglevConcurrentDispatcher =
  incoming_queue :: "'job list"
  outgoing_queue :: "'job list"
  maglev_in_flight :: "'job list"
  maglev_job_handle :: "JobHandleCall list"
  destroyed :: "'job list"
  maglev_finalized :: "'job list"
  maglev_install_requests :: nat

text \<open>
  Modelled from the spec: the locked queue type is not among the sources; it is the
  "thread-safe FIFO" of the spec, whose dequeue "pops the front job" and signals an empty
  queue instead of blocking.
\<close>

definition LockedQueue_Enqueue :: "'job list \<Rightarrow> 'job \<Rightarrow> 'job list" where
  "LockedQueue_Enqueue q job = q @ [job]"

definition LockedQueue_Dequeue :: "'job list \<Rightarrow> 'job option \<times> 'job list" where
  "LockedQueue_Dequeue q = (case q of [] \<Rightarrow> (None, []) | job # rest \<Rightarrow> (Some job, rest))"

definition LockedQueue_IsEmpty :: "'job list \<Rightarrow> bool" where
  "LockedQueue_IsEmpty q \<longleftrightarrow> q = []"

text \<open>
  The body of the loop of \<open>JobTask::Run\<close> once a job has been dequeued: execute it and
  enqueue it on the outgoing queue only if the status is \<open>SUCCEEDED\<close>; otherwise the
  \<open>unique_ptr\<close> still owns the job at the end of the iteration and destroys it.
\<close>

definition JobTask_execute ::
  "('job \<Rightarrow> Status) \<Rightarrow> 'job \<Rightarrow> 'job MaglevConcurrentDispatcher \<Rightarrow> 'job MaglevConcurrentDispatcher" where
  "JobTask_execute execute_job job d =
     (let status = execute_job job
      in if status = SUCCEEDED
         then d\<lparr>outgoing_queue := LockedQueue_Enqueue (outgoing_queue d) job\<rparr>
         else d\<lparr>destroyed := destroyed d @ [job]\<rparr>)"

text \<open>
  The loop of \<open>JobTask::Run\<close>. \<open>should_yield k\<close> is the answer of
  \<open>delegate->ShouldYield()\<close> at its k-th call, asked only when the incoming queue is
  not empty.
\<close>

function JobTask_Run_loop ::
  "(nat \<Rightarrow> bool) \<Rightarrow> nat \<Rightarrow> ('job \<Rightarrow> Status) \<Rightarrow> 'job MaglevConcurrentDispatcher \<Rightarrow>
   'job MaglevConcurrentDispatcher" where
  "JobTask_Run_loop should_yield k execute_job d =
     (if \<not> LockedQueue_IsEmpty (incoming_queue d) \<and> \<not> should_yield k then
        (case LockedQueue_Dequeue (incoming_queue d) of
           (None, rest) \<Rightarrow> d\<lparr>incoming_queue := rest\<rparr>
         | (Some job, rest) \<Rightarrow>
             JobTask_Run_loop should_yield (Suc k) execute_job
               (JobTask_execute execute_job job (d\<lparr>incoming_queue := rest\<rparr>)))
      else d)"
  by pat_completeness auto
termination
  by (relation "measure (\<lambda>(y, k, e, d). length (incoming_queue d))")
     (auto simp: LockedQueue_Dequeue_def JobTask_execute_def Let_def split: list.splits)

definition JobTask_Run ::
  "(nat \<Rightarrow> bool) \<Rightarrow> ('job \<Rightarrow> Status) \<Rightarrow> 'job MaglevConcurrentDispatcher \<Rightarrow>
   'job MaglevConcurrentDispatcher" where
  "JobTask_Run should_yield execute_job d =
     (let d1 = JobTask_Run_loop should_yield 0 execute_job d
      in d1\<lparr>maglev_install_requests := maglev_install_requests d1 + 1\<rparr>)"

definition EnqueueJob :: "'job MaglevConcurrentDispatcher \<Rightarrow> 'job \<Rightarrow> 'job MaglevConcurrentDispatcher" where
  "EnqueueJob d job =
     d\<lparr>incoming_queue := LockedQueue_Enqueue (incoming_queue d) job,
       maglev_job_handle := maglev_job_handle d @ [NotifyConcurrencyIncrease]\<rparr>"

definition JobTask_GetMaxConcurrency ::
  "size_t \<Rightarrow> 'job MaglevConcurrentDispatcher \<Rightarrow> size_t \<Rightarrow> size_t" where
  "JobTask_GetMaxConcurrency concurrent_maglev_max_threads d worker_count =
     GetMaxConcurrency concurrent_maglev_max_threads (of_nat (length (incoming_queue d)))
       worker_count"

text \<open>
  The two draining loops of \<open>Flush\<close>: each dequeued job is owned by a local
  \<open>unique_ptr\<close> and destroyed at the end of the iteration.
\<close>

function drain_incoming :: "'job MaglevConcurrentDispatcher \<Rightarrow> 'job MaglevConcurrentDispatcher" where
  "drain_incoming d =
     (if \<not> LockedQueue_IsEmpty (incoming_queue d) then
        (case LockedQueue_Dequeue (incoming_queue d) of
           (None, rest) \<Rightarrow> drain_incoming (d\<lparr>incoming_queue := rest\<rparr>)
         | (Some job, rest) \<Rightarrow>
             drain_incoming (d\<lparr>incoming_queue := rest, destroyed := destroyed d @ [job]\<rparr>))
      else d)"
  by pat_completeness auto
termination
  by (relation "measure (\<lambda>d. length (incoming_queue d))")
     (auto simp: LockedQueue_Dequeue_def LockedQueue_IsEmpty_def split: list.splits)

function drain_outgoing :: "'job MaglevConcurrentDispatcher \<Rightarrow> 'job MaglevConcurrentDispatcher" where
  "drain_outgoing d =
     (if \<not> LockedQueue_IsEmpty (outgoing_queue d) then
        (case LockedQueue_Dequeue (outgoing_queue d) of
           (None, rest) \<Rightarrow> drain_outgoing (d\<lparr>outgoing_queue := rest\<rparr>)
         | (Some job, rest) \<Rightarrow>
             drain_outgoing (d\<lparr>outgoing_queue := rest, destroyed := destroyed d @ [job]\<rparr>))
      else d)"
  by pat_completeness auto
termination
  by (relation "measure (\<lambda>d. length (outgoing_queue d))")
     (auto simp: LockedQueue_Dequeue_def LockedQueue_IsEmpty_def split: list.splits)

text \<open>
  Modelled from the spec: cancelling the job handle (the platform's, not among the
  sources) stops the workers as soon as possible and waits for them; "there is no
  preemptive kill of a job mid-Execute", so every job a worker holds finishes its
  iteration of \<open>JobTask::Run\<close>, and nothing more is dequeued.
\<close>

definition JobHandle_Cancel ::
  "('job \<Rightarrow> Status) \<Rightarrow> 'job MaglevConcurrentDispatcher \<Rightarrow> 'job MaglevConcurrentDispatcher" where
  "JobHandle_Cancel execute_job d =
     (let d1 = foldl (\<lambda>s job. JobTask_execute execute_job job s)
                 (d\<lparr>maglev_in_flight := []\<rparr>) (maglev_in_flight d)
      in d1\<lparr>maglev_job_handle := maglev_job_handle d1 @ [Cancel]\<rparr>)"

text \<open>\<open>MaglevConcurrentDispatcher::Flush\<close>.\<close>

definition Maglev_Flush ::
  "('job \<Rightarrow> Status) \<Rightarrow> BlockingBehavior \<Rightarrow> 'job MaglevConcurrentDispatcher \<Rightarrow>
   'job MaglevConcurrentDispatcher" where
  "Maglev_Flush execute_job behavior d =
     (let d1 = drain_incoming d;
          d2 = (if behavior = kBlock then
                  (let d' = JobHandle_Cancel execute_job d1
                   in d'\<lparr>maglev_job_handle := maglev_job_handle d' @ [PostJob]\<rparr>)
                else d1)
      in drain_outgoing d2)"

section \<open>The RISC-V instruction selector (instruction-selector-riscv.h)\<close>

text \<open>
  Graph nodes: an identity, an operator, the operator's parameter (the value of a
  constant) and the inputs. The visitors below are called on nodes with two inputs.
\<close>

datatype IrOpcode =
    kInt32Constant | kInt64Constant | kParameter
  | kWord32And | kWord32Shl | kWord32Shr | kWord32Sar
  | kWord32Equal | kInt32LessThan | kInt32LessThanOrEqual | kUint32LessThan
  | kTruncateInt64ToInt32 | kSwitch

datatype Node = Node (node_id: nat) (opcode: IrOpcode) (op_parameter: int) (inputs: "Node list")

definition InputAt :: "Node \<Rightarrow> nat \<Rightarrow> Node" where
  "InputAt node i = inputs node ! i"

text \<open>
  The instruction codes this header names in the functions modelled here;
  \<open>kOtherArchOpcode\<close> stands for any other code a caller passes in.
\<close>

datatype ArchOpcode =
    kRiscvTst32 | kRiscvTst64 | kRiscvCmpZero
  | kRiscvShl32 | kRiscvShr32 | kRiscvSar32 | kRiscvSub32
  | kRiscvSignExtendByte | kRiscvSignExtendShort
  | kOtherArchOpcode nat

text \<open>
  Modelled from the spec: the flags continuation and \<open>CommuteFlagsCondition\<close> are
  defined outside this header. Commuting "flips the comparison direction": less-than
  becomes greater-than and the reverse, equality and inequality stay. Only the integer
  conditions are listed; \<open>VisitWordCompare\<close> names six of them and treats all others
  alike.
\<close>

datatype FlagsCondition =
    kEqual | kNotEqual
  | kSignedLessThan | kSignedGreaterThanOrEqual | kSignedLessThanOrEqual | kSignedGreaterThan
  | kUnsignedLessThan | kUnsignedGreaterThanOrEqual | kUnsignedLessThanOrEqual
  | kUnsignedGreaterThan

datatype FlagsMode = kFlags_branch | kFlags_deoptimize | kFlags_set | kFlags_trap | kFlags_select

record FlagsContinuation =
  mode :: FlagsMode
  condition :: FlagsCondition

fun CommuteFlagsCondition :: "FlagsCondition \<Rightarrow> FlagsCondition" where
  "CommuteFlagsCondition kSignedLessThan = kSignedGreaterThan"
| "CommuteFlagsCondition kSignedGreaterThanOrEqual = kSignedLessThanOrEqual"
| "CommuteFlagsCondition kSignedLessThanOrEqual = kSignedGreaterThanOrEqual"
| "CommuteFlagsCondition kSignedGreaterThan = kSignedLessThan"
| "CommuteFlagsCondition kUnsignedLessThan = kUnsignedGreaterThan"
| "CommuteFlagsCondition kUnsignedGreaterThanOrEqual = kUnsignedLessThanOrEqual"
| "CommuteFlagsCondition kUnsignedLessThanOrEqual = kUnsignedGreaterThanOrEqual"
| "CommuteFlagsCondition kUnsignedGreaterThan = kUnsignedLessThan"
| "CommuteFlagsCondition kEqual = kEqual"
| "CommuteFlagsCondition kNotEqual = kNotEqual"

definition Commute :: "FlagsContinuation \<Rightarrow> FlagsContinuation" where
  "Commute cont = cont\<lparr>condition := CommuteFlagsCondition (condition cont)\<rparr>"

definition IsSet :: "FlagsContinuation \<Rightarrow> bool" where
  "IsSet cont \<longleftrightarrow> mode cont = kFlags_set"

text \<open>
  \<open>SwitchInfo\<close>: \<open>value_range\<close> and \<open>case_count\<close> are \<open>size_t\<close>, \<open>min_value\<close>
  is \<open>int32_t\<close>.
\<close>

record SwitchInfo =
  value_range :: size_t
  case_count :: size_t
  min_value :: "32 word"

text \<open>
  The operands the operand generator is asked for, and the instructions the selector
  emits. \<open>UseRegister\<close> puts the node's value into a register (a constant is
  materialized), \<open>UseImmediate\<close> encodes it in the instruction.
  \<open>UseRegisterOrImmediateZero\<close> is kept as the request it is: which of the two it
  yields depends on the constant tests of the generator, defined outside this header.
\<close>

datatype InstructionOperand =
    UseRegister Node
  | UseImmediate Node
  | UseRegisterOrImmediateZero Node
  | DefineAsRegister Node
  | TempRegister
  | TempImmediate "32 word"

datatype Instruction =
    Emit ArchOpcode "InstructionOperand list" "InstructionOperand list"
  | EmitWithContinuation ArchOpcode "InstructionOperand list" FlagsContinuation
  | EmitTableSwitch SwitchInfo InstructionOperand
  | EmitBinarySearchSwitch SwitchInfo InstructionOperand

text \<open>
  What the selector reads from outside this header: whether a node can be encoded as an
  immediate of an instruction code (\<open>g.CanBeImmediate(node, opcode)\<close>, which rests on
  the architecture's immediate ranges), \<open>CanCover\<close>, the binop matchers of
  node-matchers.h (the operand pair \<open>(m.left().node(), m.right().node())\<close> of
  \<open>Int32BinopMatcher m(node)\<close> and of \<open>Int32BinopMatcher m(node, true)\<close>), the
  value matcher (\<open>HasResolvedValue\<close>, \<open>ResolvedValue\<close> as \<open>int32_t\<close>),
  \<open>n.right().IsZero()\<close> of \<open>NumberBinopMatcher n(node, true)\<close>, the target
  (\<open>V8_TARGET_ARCH_RISCV64\<close> or \<open>RISCV32\<close>) and whether jump tables are enabled.
\<close>

record Selector =
  CanBeImmediate :: "Node \<Rightarrow> ArchOpcode \<Rightarrow> bool"
  CanCover :: "Node \<Rightarrow> Node \<Rightarrow> bool"
  Int32BinopMatcher :: "Node \<Rightarrow> Node \<times> Node"
  Int32BinopMatcher_allow_input_swap :: "Node \<Rightarrow> Node \<times> Node"
  HasResolvedValue :: "Node \<Rightarrow> bool"
  ResolvedValue :: "Node \<Rightarrow> 32 word"
  NumberBinopMatcher_right_IsZero :: "Node \<Rightarrow> bool"
  target_arch_riscv64 :: bool
  enable_switch_jump_table :: bool

definition Is :: "Selector \<Rightarrow> Node \<Rightarrow> 32 word \<Rightarrow> bool" where
  "Is sel n v \<longleftrightarrow> HasResolvedValue sel n \<and> ResolvedValue sel n = v"

definition IsInRange :: "Selector \<Rightarrow> Node \<Rightarrow> int \<Rightarrow> int \<Rightarrow> bool" where
  "IsInRange sel n low high \<longleftrightarrow>
     HasResolvedValue sel n \<and> low \<le> sint (ResolvedValue sel n) \<and> sint (ResolvedValue sel n) \<le> high"

definition UseOperand :: "Selector \<Rightarrow> Node \<Rightarrow> ArchOpcode \<Rightarrow> InstructionOperand" where
  "UseOperand sel node opc =
     (if CanBeImmediate sel node opc then UseImmediate node else UseRegister node)"

definition VisitRRO :: "Selector \<Rightarrow> ArchOpcode \<Rightarrow> Node \<Rightarrow> Instruction" where
  "VisitRRO sel opc node =
     Emit opc [DefineAsRegister node]
       [UseRegister (InputAt node 0), UseOperand sel (InputAt node 1) opc]"

definition VisitCompare ::
  "ArchOpcode \<Rightarrow> InstructionOperand \<Rightarrow> InstructionOperand \<Rightarrow> FlagsContinuation \<Rightarrow> Instruction" where
  "VisitCompare opc left right cont = EmitWithContinuation opc [left, right] cont"

definition VisitWordCompareZero :: "InstructionOperand \<Rightarrow> FlagsContinuation \<Rightarrow> Instruction" where
  "VisitWordCompareZero v cont = EmitWithContinuation kRiscvCmpZero [v] cont"

text \<open>
  \<open>VisitWordCompare\<close>. The parameter \<open>commutative\<close> is not read by the function.
  The test on the instruction code is \<open>kRiscvTst64\<close> or \<open>kRiscvTst32\<close> on RISCV64 and
  \<open>kRiscvTst32\<close> alone on RISCV32.
\<close>

definition is_tst :: "Selector \<Rightarrow> ArchOpcode \<Rightarrow> bool" where
  "is_tst sel opc \<longleftrightarrow>
     (if target_arch_riscv64 sel then opc = kRiscvTst64 \<or> opc = kRiscvTst32
      else opc = kRiscvTst32)"

definition VisitWordCompare ::
  "Selector \<Rightarrow> Node \<Rightarrow> ArchOpcode \<Rightarrow> FlagsContinuation \<Rightarrow> bool \<Rightarrow> Instruction" where
  "VisitWordCompare sel node opc cont0 commutative =
     (let left0 = InputAt node 0;
          right0 = InputAt node 1;
          swap = (\<not> CanBeImmediate sel right0 opc \<and> CanBeImmediate sel left0 opc);
          cont = (if swap then Commute cont0 else cont0);
          left = (if swap then right0 else left0);
          right = (if swap then left0 else right0)
      in
      if CanBeImmediate sel right opc then
        (if is_tst sel opc then
           (if opcode left = kTruncateInt64ToInt32 then
              VisitCompare opc (UseRegister (InputAt left 0)) (UseImmediate right) cont
            else VisitCompare opc (UseRegister left) (UseImmediate right) cont)
         else if condition cont = kEqual \<or> condition cont = kNotEqual then
           (if IsSet cont then
              VisitCompare opc (UseRegister left) (UseImmediate right) cont
            else if Is sel (snd (Int32BinopMatcher_allow_input_swap sel node)) 0
                    \<or> NumberBinopMatcher_right_IsZero sel node then
              VisitWordCompareZero (UseRegisterOrImmediateZero left) cont
            else VisitCompare opc (UseRegister left) (UseRegister right) cont)
         else if condition cont = kSignedLessThan \<or> condition cont = kSignedGreaterThanOrEqual
                 \<or> condition cont = kUnsignedLessThan
                 \<or> condition cont = kUnsignedGreaterThanOrEqual then
           (if Is sel (snd (Int32BinopMatcher_allow_input_swap sel node)) 0 then
              VisitWordCompareZero (UseRegisterOrImmediateZero left) cont
            else VisitCompare opc (UseRegister left) (UseImmediate right) cont)
         else
           (if Is sel (snd (Int32BinopMatcher_allow_input_swap sel node)) 0 then
              VisitWordCompareZero (UseRegisterOrImmediateZero left) cont
            else VisitCompare opc (UseRegister left) (UseRegister right) cont))
      else VisitCompare opc (UseRegister left) (UseRegister right) cont)"

text \<open>
  \<open>VisitSwitch\<close>, as the list of instructions it emits. The costs are \<open>size_t\<close>
  values; \<open>kMaxTableSwitchValueRange\<close> is \<open>2 << 16\<close>.
\<close>

definition kMaxTableSwitchValueRange :: size_t where
  "kMaxTableSwitchValueRange = push_bit 16 2"

definition VisitSwitch :: "Selector \<Rightarrow> Node \<Rightarrow> SwitchInfo \<Rightarrow> Instruction list" where
  "VisitSwitch sel node sw =
     (let value_operand = UseRegister (InputAt node 0);
          table_space_cost = 10 + 2 * value_range sw;
          table_time_cost = (3 :: size_t);
          lookup_space_cost = 2 + 2 * case_count sw;
          lookup_time_cost = case_count sw
      in
      if enable_switch_jump_table sel \<and>
         case_count sw > 0 \<and>
         table_space_cost + 3 * table_time_cost \<le> lookup_space_cost + 3 * lookup_time_cost \<and>
         sint (min_value sw) > - (2 ^ 31) \<and>
         value_range sw \<le> kMaxTableSwitchValueRange
      then
        (if min_value sw \<noteq> 0 then
           [Emit kRiscvSub32 [TempRegister] [value_operand, TempImmediate (min_value sw)],
            EmitTableSwitch sw TempRegister]
         else [EmitTableSwitch sw value_operand])
      else [EmitBinarySearchSwitch sw value_operand])"

text \<open>
  Modelled from the spec: \<open>base::bits::CountPopulation\<close> and
  \<open>CountLeadingZeros32\<close> are not among the sources; they count the set bits of a
  32-bit mask and the clear bits above its highest set bit, which is what lets the
  selector recognise "a contiguous run of set bits".
\<close>

definition CountPopulation :: "32 word \<Rightarrow> 32 word" where
  "CountPopulation w = of_nat (length (filter (bit w) [0 ..< 32]))"

definition CountLeadingZeros32 :: "32 word \<Rightarrow> 32 word" where
  "CountLeadingZeros32 w = of_nat (length (takeWhile (\<lambda>i. \<not> bit w i) (rev [0 ..< 32])))"

text \<open>\<open>VisitWord32Shl\<close> and \<open>VisitWord32Sar\<close>.\<close>

definition VisitWord32Shl :: "Selector \<Rightarrow> Node \<Rightarrow> Instruction" where
  "VisitWord32Shl sel node =
     (let m = Int32BinopMatcher sel node in
      if opcode (fst m) = kWord32And \<and> CanCover sel node (fst m) \<and> IsInRange sel (snd m) 1 31
      then
        (let mleft = Int32BinopMatcher sel (fst m) in
         if HasResolvedValue sel (snd mleft) then
           (let mask = ResolvedValue sel (snd mleft);
                mask_width = CountPopulation mask;
                mask_msb = CountLeadingZeros32 mask
            in if mask_width \<noteq> 0 \<and> mask_msb + mask_width = 32 then
                 (let shift = ResolvedValue sel (snd m)
                  in if shift + mask_width \<ge> 32 then
                       Emit kRiscvShl32 [DefineAsRegister node]
                         [UseRegister (fst mleft), UseImmediate (snd m)]
                     else VisitRRO sel kRiscvShl32 node)
               else VisitRRO sel kRiscvShl32 node)
         else VisitRRO sel kRiscvShl32 node)
      else VisitRRO sel kRiscvShl32 node)"

definition VisitWord32Sar :: "Selector \<Rightarrow> Node \<Rightarrow> Instruction" where
  "VisitWord32Sar sel node =
     (let m = Int32BinopMatcher sel node in
      if CanCover sel node (fst m) then
        (if opcode (fst m) = kWord32Shl then
           (let mleft = Int32BinopMatcher sel (fst m) in
            if HasResolvedValue sel (snd m) \<and> HasResolvedValue sel (snd mleft) then
              (let sar = ResolvedValue sel (snd m);
                   shl = ResolvedValue sel (snd mleft)
               in if sar = shl \<and> sar = 16 then
                    Emit kRiscvSignExtendShort [DefineAsRegister node] [UseRegister (fst mleft)]
                  else if sar = shl \<and> sar = 24 then
                    Emit kRiscvSignExtendByte [DefineAsRegister node] [UseRegister (fst mleft)]
                  else if sar = shl \<and> sar = 32 then
                    Emit kRiscvShl32 [DefineAsRegister node]
                      [UseRegister (fst mleft), TempImmediate 0]
                  else VisitRRO sel kRiscvSar32 node)
            else VisitRRO sel kRiscvSar32 node)
         else VisitRRO sel kRiscvSar32 node)
      else VisitRRO sel kRiscvSar32 node)"

section \<open>Maglev bounds checks on arm64 (maglev-ir-arm64.cc)\<close>













section \<open>Deoptimization frames (maglev-ir.cc)\<close>

text \<open>
  A deopt frame is of one of four types and may have a parent. Of an interpreted frame
  only the size of its frame state (for its compilation unit) matters here; the other
  frames carry their argument or parameter lists. Sizes and counts are natural numbers.
\<close>

datatype 'v DeoptFrame =
    kInterpretedFrame (frame_state_size: nat) (parent: "'v DeoptFrame option")
  | kInlinedArgumentsFrame (arguments: "'v list") (parent: "'v DeoptFrame option")
  | kConstructStubFrame (arguments_without_receiver: "'v list") (parent: "'v DeoptFrame option")
  | kBuiltinContinuationFrame (parameters: "'v list") (parent: "'v DeoptFrame option")

definition kClosureSize :: nat where "kClosureSize = 1"
definition kReceiverSize :: nat where "kReceiverSize = 1"
definition kContextSize :: nat where "kContextSize = 1"

text \<open>
  \<open>GetInputLocationsArraySize\<close>: the \<open>do ... while\<close> loop over the frame and its
  parents, with the running \<open>size\<close>.
\<close>

function GetInputLocationsArraySize_loop :: "nat \<Rightarrow> 'v DeoptFrame \<Rightarrow> nat" where
  "GetInputLocationsArraySize_loop size0 frame =
     (let size1 =
        (case frame of
           kInterpretedFrame n p \<Rightarrow> size0 + (kClosureSize + n)
         | kInlinedArgumentsFrame args p \<Rightarrow> size0 + (kClosureSize + length args)
         | kConstructStubFrame args p \<Rightarrow>
             size0 + (kClosureSize + kReceiverSize + length args + kContextSize)
         | kBuiltinContinuationFrame params p \<Rightarrow> size0 + (length params + kContextSize))
      in case parent frame of
           Some p \<Rightarrow> GetInputLocationsArraySize_loop size1 p
         | None \<Rightarrow> size1)"
  by pat_completeness auto
termination
proof (relation "measure (\<lambda>(s, f). size f)")
  show "wf (measure (\<lambda>(s, f :: 'v DeoptFrame). size f))" by simp
next
  fix size0 :: nat and frame p :: "'v DeoptFrame" and size1 :: nat
  assume "parent frame = Some p"
  then have "size p < size frame" by (cases frame) auto
  then show "((size1, p), (size0, frame)) \<in> measure (\<lambda>(s, f). size f)" by simp
qed

definition GetInputLocationsArraySize :: "'v DeoptFrame \<Rightarrow> nat" where
  "GetInputLocationsArraySize top_frame = GetInputLocationsArraySize_loop 0 top_frame"

text \<open>
  \<open>DeoptInfo::DeoptInfo\<close>: the array is allocated with that many slots, not yet
  constructed (\<open>None\<close>), and the loop constructs an \<open>InputLocation\<close> in each slot from
  0 up to the size; a default-constructed \<open>InputLocation\<close> has no next use id.
\<close>

datatype InputLocation = InputLocation (next_use_id: "nat option")

record ('v, 'fb) DeoptInfo =
  top_frame :: "'v DeoptFrame"
  feedback_to_update :: 'fb
  input_locations :: "InputLocation option list"

definition NewArray :: "nat \<Rightarrow> InputLocation option list" where
  "NewArray n = replicate n None"

function DeoptInfo_init_loop ::
  "nat \<Rightarrow> nat \<Rightarrow> InputLocation option list \<Rightarrow> InputLocation option list" where
  "DeoptInfo_init_loop i n locs =
     (if i < n then DeoptInfo_init_loop (i + 1) n (locs[i := Some (InputLocation None)])
      else locs)"
  by pat_completeness auto
termination
  by (relation "measure (\<lambda>(i, n, locs). n - i)") auto

definition DeoptInfo_new :: "'v DeoptFrame \<Rightarrow> 'fb \<Rightarrow> ('v, 'fb) DeoptInfo" where
  "DeoptInfo_new top_fr fb =
     \<lparr>top_frame = top_fr, feedback_to_update = fb,
      input_locations =
        DeoptInfo_init_loop 0 (GetInputLocationsArraySize top_fr)
          (NewArray (GetInputLocationsArraySize top_fr))\<rparr>"

text \<open>
  The frame size as the spec words it: the frames from the top one to the outermost
  parent, each counted by the rule of its type, summed.
\<close>

fun frame_chain :: "'v DeoptFrame \<Rightarrow> 'v DeoptFrame list" where
  "frame_chain (kInterpretedFrame n None) = [kInterpretedFrame n None]"
| "frame_chain (kInterpretedFrame n (Some p)) = kInterpretedFrame n (Some p) # frame_chain p"
| "frame_chain (kInlinedArgumentsFrame a None) = [kInlinedArgumentsFrame a None]"
| "frame_chain (kInlinedArgumentsFrame a (Some p)) =
     kInlinedArgumentsFrame a (Some p) # frame_chain p"
| "frame_chain (kConstructStubFrame a None) = [kConstructStubFrame a None]"
| "frame_chain (kConstructStubFrame a (Some p)) = kConstructStubFrame a (Some p) # frame_chain p"
| "frame_chain (kBuiltinContinuationFrame a None) = [kBuiltinContinuationFrame a None]"
| "frame_chain (kBuiltinContinuationFrame a (Some p)) =
     kBuiltinContinuationFrame a (Some p) # frame_chain p"

fun spec_frame_size :: "'v DeoptFrame \<Rightarrow> nat" where
  "spec_frame_size (kInterpretedFrame n p) = 1 + n"
| "spec_frame_size (kInlinedArgumentsFrame args p) = 1 + length args"
| "spec_frame_size (kConstructStubFrame args p) = 1 + 1 + length args + 1"
| "spec_frame_size (kBuiltinContinuationFrame params p) = length params + 1"

definition spec_input_locations_size :: "'v DeoptFrame \<Rightarrow> nat" where
  "spec_input_locations_size top_fr = sum_list (map spec_frame_size (frame_chain top_fr))"

text \<open>A dispatcher with an empty queue of capacity 4 whose ring buffer starts at slot 3.\<close>

definition example_dispatcher :: "(nat, unit) OptimizingCompileDispatcher" where
  "example_dispatcher =
     \<lparr>input_queue = [0, 0, 0, 0], input_queue_capacity = 4, input_queue_length = 0,
      input_queue_shift = 3, output_queue = [], in_flight = [], job_handle = [PostJob],
      finalize_flag = True, install_requests = 0, disposed = [], finalized = [], heap = ()\<rparr>"

text \<open>
  A compiler whose Execute phase always fails, whose OSR jobs are the even ones, and for
  which every function already has code of the requested kind; one whose Execute phase
  succeeds on even jobs only.
\<close>

definition failing_compiler :: "(nat, unit) Compiler" where
  "failing_compiler =
     \<lparr>ExecuteJob = (\<lambda>job. FAILED), is_osr = even,
      HasAvailableCodeKind = (\<lambda>h job. True),
      DisposeTurbofanCompilationJob = (\<lambda>job restore h. h),
      FinalizeTurbofanCompilationJob = (\<lambda>job h. h)\<rparr>"

definition succeeds_on_even :: "nat \<Rightarrow> Status" where
  "succeeds_on_even job = (if even job then SUCCEEDED else FAILED)"

definition example_maglev_dispatcher :: "nat MaglevConcurrentDispatcher" where
  "example_maglev_dispatcher =
     \<lparr>incoming_queue = [1, 2], outgoing_queue = [5], maglev_in_flight = [3, 4],
      maglev_job_handle = [PostJob], destroyed = [], maglev_finalized = [],
      maglev_install_requests = 0\<rparr>"

text \<open>
  Reading an instruction: its continuation, its input operands, and whether a switch was
  lowered to a jump table.
\<close>

fun instr_continuation :: "Instruction \<Rightarrow> FlagsContinuation option" where
  "instr_continuation (EmitWithContinuation opc ins cont) = Some cont"
| "instr_continuation (Emit opc outs ins) = None"
| "instr_continuation (EmitTableSwitch sw ix) = None"
| "instr_continuation (EmitBinarySearchSwitch sw v) = None"

fun instr_inputs :: "Instruction \<Rightarrow> InstructionOperand list" where
  "instr_inputs (EmitWithContinuation opc ins cont) = ins"
| "instr_inputs (Emit opc outs ins) = ins"
| "instr_inputs (EmitTableSwitch sw ix) = [ix]"
| "instr_inputs (EmitBinarySearchSwitch sw v) = [v]"

fun is_table_switch :: "Instruction \<Rightarrow> bool" where
  "is_table_switch (EmitTableSwitch sw ix) = True"
| "is_table_switch (EmitWithContinuation opc ins cont) = False"
| "is_table_switch (Emit opc outs ins) = False"
| "is_table_switch (EmitBinarySearchSwitch sw v) = False"

text \<open>
  A selector for the examples: the 32-bit constants are the nodes that can be immediates
  and that have a resolved value, every node covers its inputs, the plain matcher reads
  the two inputs in order and the swapping one puts a lone constant on the right; and a
  few nodes: a parameter \<open>x\<close>, constants, \<open>5 < x\<close>,
  \<open>(x & 0xFFFF0000) << 1\<close>, \<open>(x & 0xFFFF) << 16\<close>, \<open>(x << 24) >> 24\<close> and
  \<open>(x << k) >> k\<close>.
\<close>

definition example_selector :: Selector where
  "example_selector =
     \<lparr>CanBeImmediate = (\<lambda>n opc. opcode n = kInt32Constant),
      CanCover = (\<lambda>user n. True),
      Int32BinopMatcher = (\<lambda>n. (InputAt n 0, InputAt n 1)),
      Int32BinopMatcher_allow_input_swap =
        (\<lambda>n. if opcode (InputAt n 0) = kInt32Constant \<and> opcode (InputAt n 1) \<noteq> kInt32Constant
             then (InputAt n 1, InputAt n 0) else (InputAt n 0, InputAt n 1)),
      HasResolvedValue = (\<lambda>n. opcode n = kInt32Constant),
      ResolvedValue = (\<lambda>n. word_of_int (op_parameter n)),
      NumberBinopMatcher_right_IsZero = (\<lambda>n. False),
      target_arch_riscv64 = True,
      enable_switch_jump_table = True\<rparr>"

definition node_x :: Node where
  "node_x = Node 1 kParameter 0 []"

definition node_const :: "int \<Rightarrow> Node" where
  "node_const v = Node 2 kInt32Constant v []"

definition node_5_less_x :: Node where
  "node_5_less_x = Node 3 kInt32LessThan 0 [node_const 5, node_x]"

definition node_and_high :: Node where
  "node_and_high = Node 4 kWord32And 0 [node_x, node_const 0xFFFF0000]"

definition node_shl_and_high :: Node where
  "node_shl_and_high = Node 5 kWord32Shl 0 [node_and_high, node_const 1]"

definition node_and_low :: Node where
  "node_and_low = Node 6 kWord32And 0 [node_x, node_const 0xFFFF]"

definition node_shl_and_low :: Node where
  "node_shl_and_low = Node 7 kWord32Shl 0 [node_and_low, node_const 16]"

definition node_shl_24 :: Node where
  "node_shl_24 = Node 8 kWord32Shl 0 [node_x, node_const 24]"

definition node_sar_shl_24 :: Node where
  "node_sar_shl_24 = Node 9 kWord32Sar 0 [node_shl_24, node_const 24]"

definition node_shl_by :: "int \<Rightarrow> Node" where
  "node_shl_by k = Node 11 kWord32Shl 0 [node_x, node_const k]"

definition node_sar_shl_by :: "int \<Rightarrow> Node" where
  "node_sar_shl_by k = Node 12 kWord32Sar 0 [node_shl_by k, node_const k]"

definition node_switch :: Node where
  "node_switch = Node 10 kSwitch 0 [node_x]"

definition less_than_branch :: FlagsContinuation where
  "less_than_branch = \<lparr>mode = kFlags_branch, condition = kSignedLessThan\<rparr>"

section \<open>Theorems\<close>

declare FlushInputQueue.simps [simp del] FlushOutputQueue.simps [simp del]
  InstallOptimizedFunctions.simps [simp del] JobTask_Run_loop.simps [simp del]
  drain_incoming.simps [simp del] drain_outgoing.simps [simp del]
  GetInputLocationsArraySize_loop.simps [simp del] DeoptInfo_init_loop.simps [simp del]


subsection \<open>Worker sizing\<close>

lemma GetMaxConcurrency_word:
  "GetMaxConcurrency m q w = (if 0 < m then min m (q + w) else q + w)"
  by (simp add: GetMaxConcurrency_def Let_def)


lemma GetMaxConcurrency_nat:
  assumes "unat q + unat w < 2 ^ 64"
  shows "unat (GetMaxConcurrency m q w) =
           (if 0 < unat m then min (unat m) (unat q + unat w) else unat q + unat w)"
proof -
  from assms have sum: "unat (q + w) = unat q + unat w"
    using unat_add_lem [of q w] by simp
  have mn: "unat (min m (q + w)) = min (unat m) (unat (q + w))"
    by (simp add: min_def word_le_nat_alt)
  have pos: "0 < m \<longleftrightarrow> 0 < unat m"
    by (simp add: word_less_nat_alt)
  show ?thesis
    unfolding GetMaxConcurrency_word using sum mn pos by simp
qed

lemma unat_queue_length:
  assumes "0 \<le> l" "nat l + unat (w :: size_t) < 2 ^ 64"
  shows "unat (word_of_int l :: size_t) = nat l"
proof -
  have "word_of_int l = (of_nat (nat l) :: size_t)" using assms(1) by simp
  moreover have "nat l < 2 ^ 64" using assms(2) by linarith
  ultimately show ?thesis by (simp add: unat_of_nat)
qed

text \<open>
  C2. For a queue length that is not negative, \<open>GetMaxConcurrency(worker_count)\<close> of
  either dispatcher returns the minimum of the configured maximum and queue length plus
  worker count when the configured maximum is positive, and queue length plus worker
  count when it is 0. The sum is the \<open>size_t\<close> sum of the code; whenever it does not
  wrap, the same holds of the numbers themselves.
\<close>

theorem GetMaxConcurrency_spec:
  "CompileTask_GetMaxConcurrency m d w =
     (if 0 < m then min m (word_of_int (input_queue_length d) + w)
      else word_of_int (input_queue_length d) + w) \<and>
   JobTask_GetMaxConcurrency m md w =
     (if 0 < m then min m (of_nat (length (incoming_queue md)) + w)
      else of_nat (length (incoming_queue md)) + w) \<and>
   (0 \<le> input_queue_length d \<and> nat (input_queue_length d) + unat w < 2 ^ 64 \<longrightarrow>
      unat (CompileTask_GetMaxConcurrency m d w) =
        (if 0 < unat m then min (unat m) (nat (input_queue_length d) + unat w)
         else nat (input_queue_length d) + unat w)) \<and>
   (length (incoming_queue md) + unat w < 2 ^ 64 \<longrightarrow>
      unat (JobTask_GetMaxConcurrency m md w) =
        (if 0 < unat m then min (unat m) (length (incoming_queue md) + unat w)
         else length (incoming_queue md) + unat w))"
proof (intro conjI impI)
  show "CompileTask_GetMaxConcurrency m d w =
     (if 0 < m then min m (word_of_int (input_queue_length d) + w)
      else word_of_int (input_queue_length d) + w)"
    by (simp add: CompileTask_GetMaxConcurrency_def InputQueueLength_def GetMaxConcurrency_word)
  show "JobTask_GetMaxConcurrency m md w =
     (if 0 < m then min m (of_nat (length (incoming_queue md)) + w)
      else of_nat (length (incoming_queue md)) + w)"
    by (simp add: JobTask_GetMaxConcurrency_def GetMaxConcurrency_word)
next
  assume a: "0 \<le> input_queue_length d \<and> nat (input_queue_length d) + unat w < 2 ^ 64"
  then have u: "unat (word_of_int (input_queue_length d) :: size_t) = nat (input_queue_length d)"
    by (intro unat_queue_length [of _ w]) simp_all
  have "unat (word_of_int (input_queue_length d) :: size_t) + unat w < 2 ^ 64"
    using a by (simp only: u)
  from GetMaxConcurrency_nat [OF this, of m]
  show "unat (CompileTask_GetMaxConcurrency m d w) =
        (if 0 < unat m then min (unat m) (nat (input_queue_length d) + unat w)
         else nat (input_queue_length d) + unat w)"
    by (simp only: CompileTask_GetMaxConcurrency_def InputQueueLength_def u)
next
  assume a: "length (incoming_queue md) + unat w < 2 ^ 64"
  then have "length (incoming_queue md) < 2 ^ 64" by linarith
  then have u: "unat (of_nat (length (incoming_queue md)) :: size_t) = length (incoming_queue md)"
    by (simp add: unat_of_nat)
  have "unat (of_nat (length (incoming_queue md)) :: size_t) + unat w < 2 ^ 64"
    using a by (simp only: u)
  from GetMaxConcurrency_nat [OF this, of m]
  show "unat (JobTask_GetMaxConcurrency m md w) =
        (if 0 < unat m then min (unat m) (length (incoming_queue md) + unat w)
         else length (incoming_queue md) + unat w)"
    by (simp only: JobTask_GetMaxConcurrency_def u)
qed

theorem GetMaxConcurrency_spec_witness:
  "0 \<le> input_queue_length (example_dispatcher\<lparr>input_queue_length := 3\<rparr>) \<and>
   nat (input_queue_length (example_dispatcher\<lparr>input_queue_length := 3\<rparr>))
     + unat (2 :: size_t) < 2 ^ 64 \<and>
   length (incoming_queue example_maglev_dispatcher) + unat (2 :: size_t) < 2 ^ 64 \<and>
   unat (CompileTask_GetMaxConcurrency 4 (example_dispatcher\<lparr>input_queue_length := 3\<rparr>) 2) = 4 \<and>
   unat (CompileTask_GetMaxConcurrency 0 (example_dispatcher\<lparr>input_queue_length := 3\<rparr>) 2) = 5 \<and>
   unat (JobTask_GetMaxConcurrency 3 example_maglev_dispatcher 2) = 3 \<and>
   unat (JobTask_GetMaxConcurrency 0 example_maglev_dispatcher 2) = 4"
proof -
  let ?d = "example_dispatcher\<lparr>input_queue_length := 3\<rparr>"
  have l: "input_queue_length ?d = 3" by simp
  have i: "length (incoming_queue example_maglev_dispatcher) = 2"
    by (simp add: example_maglev_dispatcher_def)
  from GetMaxConcurrency_spec [of 4 ?d 2 example_maglev_dispatcher]
    GetMaxConcurrency_spec [of 0 ?d 2 example_maglev_dispatcher]
    GetMaxConcurrency_spec [of 3 ?d 2 example_maglev_dispatcher]
  show ?thesis unfolding l i by simp
qed

subsection \<open>The input queue is a FIFO ring buffer\<close>

lemma ring_index_distinct:
  fixes i l s c :: int
  assumes "0 \<le> i" "i < l" "l < c" 
  shows "(i + s) mod c \<noteq> (l + s) mod c"
proof
  assume "(i + s) mod c = (l + s) mod c"
  then have "c dvd ((l + s) - (i + s))" by (metis mod_eq_dvd_iff)
  then have "c dvd (l - i)" by simp
  moreover have "0 < l - i" "l - i < c" using assms by auto
  ultimately show False by (meson zdvd_not_zless)
qed

lemma InputQueueIndex_range:
  "queue_inv d \<Longrightarrow> 0 \<le> InputQueueIndex d i \<and> InputQueueIndex d i < input_queue_capacity d"
  by (simp add: queue_inv_def InputQueueIndex_def)

lemma queue_inv_enqueue:
  assumes "queue_inv d" "input_queue_length d < input_queue_capacity d"
  shows "queue_inv (QueueForOptimization d j)"
  using assms by (simp add: queue_inv_def QueueForOptimization_def)

lemma queue_contents_enqueue:
  assumes "queue_inv d" "input_queue_length d < input_queue_capacity d"
  shows "queue_contents (QueueForOptimization d j) = queue_contents d @ [j]"
proof -
  let ?l = "input_queue_length d"
  let ?k = "nat (InputQueueIndex d ?l)"
  have l0: "0 \<le> ?l" using assms by (simp add: queue_inv_def)
  have idx: "InputQueueIndex (QueueForOptimization d j) i = InputQueueIndex d i" for i
    by (simp add: InputQueueIndex_def QueueForOptimization_def)
  have k: "?k < length (input_queue d)"
    using InputQueueIndex_range [OF assms(1), of ?l] assms(1) by (simp add: queue_inv_def)
  have old: "(input_queue d)[?k := j] ! nat (InputQueueIndex d (int i)) =
             input_queue d ! nat (InputQueueIndex d (int i))" if "i < nat ?l" for i
  proof -
    have "InputQueueIndex d (int i) \<noteq> InputQueueIndex d ?l"
      unfolding InputQueueIndex_def using that assms(2) by (intro ring_index_distinct) auto
    moreover have "0 \<le> InputQueueIndex d (int i)" "0 \<le> InputQueueIndex d ?l"
      using InputQueueIndex_range [OF assms(1)] by auto
    ultimately have "nat (InputQueueIndex d (int i)) \<noteq> ?k" by simp
    then show ?thesis by simp
  qed
  have len: "nat (?l + 1) = Suc (nat ?l)" using l0 by simp
  have q: "input_queue (QueueForOptimization d j) = (input_queue d)[?k := j]"
    and l': "input_queue_length (QueueForOptimization d j) = ?l + 1"
    by (simp_all add: QueueForOptimization_def)
  have "queue_contents (QueueForOptimization d j) =
        map (\<lambda>i. (input_queue d)[?k := j] ! nat (InputQueueIndex d (int i))) [0 ..< Suc (nat ?l)]"
    by (simp only: queue_contents_def idx q l' len)
  also have "\<dots> = map (\<lambda>i. (input_queue d)[?k := j] ! nat (InputQueueIndex d (int i))) [0 ..< nat ?l]
                  @ [(input_queue d)[?k := j] ! nat (InputQueueIndex d (int (nat ?l)))]"
    by (simp only: upt_Suc le0 if_True map_append list.map)
  also have "map (\<lambda>i. (input_queue d)[?k := j] ! nat (InputQueueIndex d (int i))) [0 ..< nat ?l]
             = queue_contents d"
    unfolding queue_contents_def by (rule map_cong) (auto simp: old)
  also have "(input_queue d)[?k := j] ! nat (InputQueueIndex d (int (nat ?l))) = j"
    using k l0 by simp
  finally show ?thesis .
qed

lemma NextInput_empty:
  "input_queue_length d = 0 \<Longrightarrow> NextInput d = (None, d)"
  by (simp add: NextInput_def)

lemma NextInput_nonempty:
  assumes "queue_inv d" "0 < input_queue_length d"
  shows "fst (NextInput d) = Some (hd (queue_contents d))"
    and "queue_contents (snd (NextInput d)) = tl (queue_contents d)"
    and "queue_inv (snd (NextInput d))"
    and "input_queue_length (snd (NextInput d)) = input_queue_length d - 1"
proof -
  let ?l = "input_queue_length d"
  let ?d' = "snd (NextInput d)"
  have ne: "?l \<noteq> 0" using assms by simp
  have d': "?d' = d\<lparr>input_queue_shift := InputQueueIndex d 1, input_queue_length := ?l - 1\<rparr>"
    using ne by (simp add: NextInput_def Let_def)
  have up: "[0 ..< nat ?l] = 0 # map Suc [0 ..< nat (?l - 1)]"
  proof -
    have "nat ?l = Suc (nat (?l - 1))" using assms(2) by simp
    then show ?thesis by (metis map_Suc_upt upt_conv_Cons zero_less_Suc)
  qed
  show "fst (NextInput d) = Some (hd (queue_contents d))"
    using ne by (simp add: NextInput_def Let_def queue_contents_def up)
  show "input_queue_length ?d' = ?l - 1" by (simp add: d')
  show "queue_inv ?d'"
    using assms InputQueueIndex_range [OF assms(1), of 1] by (simp add: d' queue_inv_def)
  have shift: "InputQueueIndex ?d' i = InputQueueIndex d (i + 1)" for i
    by (simp add: d' InputQueueIndex_def mod_add_right_eq add.commute add.left_commute)
  have "queue_contents ?d' =
        map (\<lambda>i. input_queue d ! nat (InputQueueIndex d (int i + 1))) [0 ..< nat (?l - 1)]"
    unfolding queue_contents_def by (simp add: shift) (simp add: d')
  also have "\<dots> = tl (queue_contents d)"
    by (simp add: queue_contents_def up comp_def add.commute)
  finally show "queue_contents ?d' = tl (queue_contents d)" .
qed


lemma length_queue_contents: "length (queue_contents d) = nat (input_queue_length d)"
  by (simp add: queue_contents_def)

lemma capacity_enqueue:
  "input_queue_capacity (QueueForOptimization d j) = input_queue_capacity d"
  "input_queue_length (QueueForOptimization d j) = input_queue_length d + 1"
  by (simp_all add: QueueForOptimization_def)

lemma enqueue_all_contents:
  "queue_inv d \<Longrightarrow> input_queue_length d + int (length js) \<le> input_queue_capacity d \<Longrightarrow>
   queue_inv (enqueue_all d js) \<and>
   queue_contents (enqueue_all d js) = queue_contents d @ js \<and>
   input_queue_length (enqueue_all d js) = input_queue_length d + int (length js)"
proof (induction js arbitrary: d)
  case Nil
  then show ?case by simp
next
  case (Cons j js)
  let ?d = "QueueForOptimization d j"
  have lt: "input_queue_length d < input_queue_capacity d" using Cons.prems(2) by simp
  have inv: "queue_inv ?d" by (rule queue_inv_enqueue [OF Cons.prems(1) lt])
  have room: "input_queue_length ?d + int (length js) \<le> input_queue_capacity ?d"
    using Cons.prems(2) by (simp add: capacity_enqueue)
  from Cons.IH [OF inv room] queue_contents_enqueue [OF Cons.prems(1) lt, of j]
  show ?case by (simp add: capacity_enqueue)
qed

lemma dequeue_n_contents:
  "queue_inv d \<Longrightarrow> n \<le> length (queue_contents d) \<Longrightarrow>
   fst (dequeue_n n d) = map Some (take n (queue_contents d)) \<and>
   queue_contents (snd (dequeue_n n d)) = drop n (queue_contents d) \<and>
   queue_inv (snd (dequeue_n n d))"
proof (induction n arbitrary: d)
  case 0
  then show ?case by simp
next
  case (Suc n)
  have pos: "0 < input_queue_length d"
    using Suc.prems(2) by (simp add: length_queue_contents)
  note step = NextInput_nonempty [OF Suc.prems(1) pos]
  let ?d = "snd (NextInput d)"
  have ne: "queue_contents d \<noteq> []" using Suc.prems(2) by auto
  have n: "n \<le> length (queue_contents ?d)" using Suc.prems(2) by (simp add: step(2))
  from Suc.IH [OF step(3) n] step(1,2) ne
  show ?case
    by (cases "queue_contents d") (auto simp: split_beta Let_def drop_Suc take_Suc)
qed

lemma length_nonneg_steps:
  "0 \<le> input_queue_length d \<Longrightarrow> 0 \<le> input_queue_length (snd (NextInput d))"
  "0 \<le> input_queue_length d \<Longrightarrow> 0 \<le> input_queue_length (QueueForOptimization d j)"
  by (auto simp: NextInput_def QueueForOptimization_def Let_def)

lemma length_nonneg_enqueue_all:
  "0 \<le> input_queue_length d \<Longrightarrow> 0 \<le> input_queue_length (enqueue_all d js)"
  by (induction js arbitrary: d) (auto simp: length_nonneg_steps)

lemma length_nonneg_dequeue_n:
  "0 \<le> input_queue_length d \<Longrightarrow> 0 \<le> input_queue_length (snd (dequeue_n n d))"
  by (induction n arbitrary: d) (auto simp: length_nonneg_steps split_beta Let_def)

text \<open>
  C8. Starting from an empty input queue, enqueueing N jobs with
  \<open>QueueForOptimization\<close> (N within the capacity) and then calling \<open>NextInput\<close> N
  times returns exactly those jobs in the order they were enqueued and leaves the queue
  empty; the queue length is never negative, neither after any prefix of the enqueues nor
  after any number of dequeues.
\<close>

theorem queue_fifo:
  assumes "queue_inv d" and "input_queue_length d = 0"
    and "int (length js) \<le> input_queue_capacity d"
  shows "fst (dequeue_n (length js) (enqueue_all d js)) = map Some js \<and>
         input_queue_length (snd (dequeue_n (length js) (enqueue_all d js))) = 0 \<and>
         (\<forall>k. 0 \<le> input_queue_length (enqueue_all d (take k js))) \<and>
         (\<forall>k. 0 \<le> input_queue_length (snd (dequeue_n k (enqueue_all d js))))"
proof -
  have room: "input_queue_length d + int (length js) \<le> input_queue_capacity d"
    using assms by simp
  note enq = enqueue_all_contents [OF assms(1) room]
  have empty: "queue_contents d = []" using assms(2) by (simp add: queue_contents_def)
  have c: "queue_contents (enqueue_all d js) = js" using enq empty by simp
  have n: "length js \<le> length (queue_contents (enqueue_all d js))" by (simp add: c)
  from enq have inv: "queue_inv (enqueue_all d js)" by simp
  note deq = dequeue_n_contents [OF inv n]
  have "length (queue_contents (snd (dequeue_n (length js) (enqueue_all d js)))) = 0"
    using deq by (simp add: c)
  moreover have "0 \<le> input_queue_length (snd (dequeue_n (length js) (enqueue_all d js)))"
    using deq by (simp add: queue_inv_def)
  ultimately have z: "input_queue_length (snd (dequeue_n (length js) (enqueue_all d js))) = 0"
    by (simp add: length_queue_contents)
  have d0: "0 \<le> input_queue_length d" using assms(2) by simp
  show ?thesis
    using deq z length_nonneg_enqueue_all [OF d0]
      length_nonneg_dequeue_n [OF length_nonneg_enqueue_all [OF d0]]
    by (simp add: c)
qed

theorem queue_fifo_witness:
  "queue_inv example_dispatcher \<and> input_queue_length example_dispatcher = 0 \<and>
   int (length [7, 8, 9 :: nat]) \<le> input_queue_capacity example_dispatcher \<and>
   fst (dequeue_n (length [7, 8, 9 :: nat]) (enqueue_all example_dispatcher [7, 8, 9]))
     = [Some 7, Some 8, Some 9]"
proof -
  have inv: "queue_inv example_dispatcher"
    by (simp add: example_dispatcher_def queue_inv_def)
  have e: "input_queue_length example_dispatcher = 0"
    by (simp add: example_dispatcher_def)
  have c: "int (length [7, 8, 9 :: nat]) \<le> input_queue_capacity example_dispatcher"
    by (simp add: example_dispatcher_def)
  from queue_fifo [OF inv e c]
  have "fst (dequeue_n (length [7, 8, 9 :: nat]) (enqueue_all example_dispatcher [7, 8, 9]))
        = map Some [7, 8, 9]"
    by blast
  then show ?thesis using inv e c by simp
qed


subsection \<open>Flushing, the worker loops and installation\<close>
lemma CompileNext_Some:
  "output_queue (CompileNext c (Some job) d) = output_queue d @ [job]"
  "disposed (CompileNext c (Some job) d) = disposed d"
  "finalized (CompileNext c (Some job) d) = finalized d"
  "in_flight (CompileNext c (Some job) d) = in_flight d"
  "job_handle (CompileNext c (Some job) d) = job_handle d"
  "input_queue_length (CompileNext c (Some job) d) = input_queue_length d"
  "heap (CompileNext c (Some job) d) = heap d"
  by (simp_all add: CompileNext_def Let_def)

lemma FlushOutputQueue_fields:
  "output_queue (FlushOutputQueue c r d) = [] \<and>
   disposed (FlushOutputQueue c r d) = disposed d @ map (\<lambda>j. (j, r)) (output_queue d) \<and>
   finalized (FlushOutputQueue c r d) = finalized d \<and>
   in_flight (FlushOutputQueue c r d) = in_flight d \<and>
   job_handle (FlushOutputQueue c r d) = job_handle d \<and>
   input_queue_length (FlushOutputQueue c r d) = input_queue_length d"
proof (induction c r d rule: FlushOutputQueue.induct)
  case (1 c r d)
  show ?case
  proof (cases "output_queue d")
    case Nil
    then show ?thesis by (subst (1 2 3 4 5 6) FlushOutputQueue.simps) simp
  next
    case (Cons job rest)
    with "1" [OF Cons] show ?thesis by (subst (1 2 3 4 5 6) FlushOutputQueue.simps) simp
  qed
qed

lemma FlushInputQueue_fields:
  "queue_inv d \<Longrightarrow>
   input_queue_length (FlushInputQueue c d) = 0 \<and>
   disposed (FlushInputQueue c d) = disposed d @ map (\<lambda>j. (j, True)) (queue_contents d) \<and>
   output_queue (FlushInputQueue c d) = output_queue d \<and>
   finalized (FlushInputQueue c d) = finalized d \<and>
   in_flight (FlushInputQueue c d) = in_flight d \<and>
   job_handle (FlushInputQueue c d) = job_handle d"
proof (induction c d rule: FlushInputQueue.induct)
  case (1 c d)
  show ?case
  proof (cases "input_queue_length d > 0")
    case False
    with "1.prems" have "input_queue_length d = 0" by (simp add: queue_inv_def)
    then show ?thesis by (subst (1 2 3 4 5 6) FlushInputQueue.simps) (simp add: queue_contents_def)
  next
    case True
    define job where "job = input_queue d ! nat (InputQueueIndex d 0)"
    define d' where "d' = d\<lparr>input_queue_shift := InputQueueIndex d 1,
             input_queue_length := input_queue_length d - 1,
             disposed := disposed d @ [(job, True)],
             heap := DisposeTurbofanCompilationJob c job True (heap d)\<rparr>"
    have d'_eq: "d' = (snd (NextInput d))\<lparr>disposed := disposed d @ [(job, True)],
             heap := DisposeTurbofanCompilationJob c job True (heap d)\<rparr>"
      using True by (simp add: d'_def NextInput_def Let_def)
    note step = NextInput_nonempty [OF "1.prems" True]
    have inv': "queue_inv d'"
      using step(3) by (simp add: d'_eq queue_inv_def)
    have cont': "queue_contents d' = tl (queue_contents d)"
      using step(2) by (simp add: d'_eq queue_contents_def InputQueueIndex_def)
    have hd: "Some job = Some (hd (queue_contents d))"
      using step(1) True by (simp add: NextInput_def Let_def job_def)
    have ne: "queue_contents d \<noteq> []"
      using True by (simp add: queue_contents_def)
    have unfold: "FlushInputQueue c d = FlushInputQueue c d'"
      using True by (subst FlushInputQueue.simps) (simp add: d'_def job_def Let_def)
    have IH: "input_queue_length (FlushInputQueue c d') = 0 \<and>
   disposed (FlushInputQueue c d') = disposed d' @ map (\<lambda>j. (j, True)) (queue_contents d') \<and>
   output_queue (FlushInputQueue c d') = output_queue d' \<and>
   finalized (FlushInputQueue c d') = finalized d' \<and>
   in_flight (FlushInputQueue c d') = in_flight d' \<and>
   job_handle (FlushInputQueue c d') = job_handle d'"
      using "1.IH" [OF True job_def] inv' unfolding d'_def by blast
    have "(job, True) # map (\<lambda>j. (j, True)) (tl (queue_contents d))
          = map (\<lambda>j. (j, True)) (queue_contents d)"
      using hd ne by (cases "queue_contents d") auto
    then show ?thesis
      using IH unfolding unfold cont' by (simp add: d'_def)
  qed
qed

lemma foldl_CompileNext_fields:
  "output_queue (foldl (\<lambda>s job. CompileNext c (Some job) s) d js) = output_queue d @ js \<and>
   disposed (foldl (\<lambda>s job. CompileNext c (Some job) s) d js) = disposed d \<and>
   finalized (foldl (\<lambda>s job. CompileNext c (Some job) s) d js) = finalized d \<and>
   in_flight (foldl (\<lambda>s job. CompileNext c (Some job) s) d js) = in_flight d \<and>
   job_handle (foldl (\<lambda>s job. CompileNext c (Some job) s) d js) = job_handle d \<and>
   input_queue_length (foldl (\<lambda>s job. CompileNext c (Some job) s) d js) = input_queue_length d"
  by (induction js arbitrary: d) (simp_all add: CompileNext_Some)

lemma JobHandle_Join_fields:
  assumes "input_queue_length d = 0"
  shows "output_queue (JobHandle_Join c d) = output_queue d @ in_flight d \<and>
   disposed (JobHandle_Join c d) = disposed d \<and>
   finalized (JobHandle_Join c d) = finalized d \<and>
   in_flight (JobHandle_Join c d) = [] \<and>
   job_handle (JobHandle_Join c d) = job_handle d @ [Join] \<and>
   input_queue_length (JobHandle_Join c d) = 0"
proof -
  let ?d1 = "foldl (\<lambda>s job. CompileNext c (Some job) s) (d\<lparr>in_flight := []\<rparr>) (in_flight d)"
  note f = foldl_CompileNext_fields [of c "d\<lparr>in_flight := []\<rparr>" "in_flight d"]
  have l: "input_queue_length ?d1 = 0" using f assms by simp
  have run: "CompileTask_Run (replicate (Suc (nat (input_queue_length ?d1))) False) c ?d1 = ?d1"
    using l by (simp add: NextInput_def)
  show ?thesis
    unfolding JobHandle_Join_def Let_def run using f assms by simp
qed

lemma Flush_turbofan:
  assumes "queue_inv d"
  shows "input_queue_length (Flush c b d) = 0 \<and> output_queue (Flush c b d) = [] \<and>
     finalized (Flush c b d) = finalized d \<and>
     (b = kDontBlock \<longrightarrow>
        disposed (Flush c b d) =
          disposed d @ map (\<lambda>j. (j, True)) (queue_contents d @ output_queue d) \<and>
        in_flight (Flush c b d) = in_flight d \<and> job_handle (Flush c b d) = job_handle d) \<and>
     (b = kBlock \<longrightarrow>
        disposed (Flush c b d) =
          disposed d @ map (\<lambda>j. (j, True)) (queue_contents d @ output_queue d @ in_flight d) \<and>
        in_flight (Flush c b d) = [] \<and> job_handle (Flush c b d) = job_handle d @ [Join, PostJob])"
proof -
  note i = FlushInputQueue_fields [OF assms, of c]
  have z: "input_queue_length (FlushInputQueue c d) = 0" using i by simp
  note j = JobHandle_Join_fields [OF z, of c]
  show ?thesis
  proof (cases b)
    case kBlock
    then show ?thesis
      unfolding Flush_def FlushQueues_def Let_def AwaitCompileTasks_def
      using i j by (simp add: FlushOutputQueue_fields)
  next
    case kDontBlock
    then show ?thesis
      unfolding Flush_def FlushQueues_def Let_def
      using i by (simp add: FlushOutputQueue_fields)
  qed
qed


lemma drain_incoming_fields:
  "incoming_queue (drain_incoming d) = [] \<and>
   destroyed (drain_incoming d) = destroyed d @ incoming_queue d \<and>
   outgoing_queue (drain_incoming d) = outgoing_queue d \<and>
   maglev_in_flight (drain_incoming d) = maglev_in_flight d \<and>
   maglev_job_handle (drain_incoming d) = maglev_job_handle d"
proof (induction d rule: drain_incoming.induct)
  case (1 d)
  show ?case
  proof (cases "incoming_queue d")
    case Nil
    then show ?thesis
      by (subst (1 2 3 4 5) drain_incoming.simps) (simp add: LockedQueue_IsEmpty_def)
  next
    case (Cons job rest)
    then have ne: "\<not> LockedQueue_IsEmpty (incoming_queue d)"
      and dq: "LockedQueue_Dequeue (incoming_queue d) = (Some job, rest)"
      by (simp_all add: LockedQueue_IsEmpty_def LockedQueue_Dequeue_def)
    from "1.IH"(2) [OF ne dq [symmetric] refl] Cons ne dq
    show ?thesis
      by (subst (1 2 3 4 5) drain_incoming.simps) simp
  qed
qed

lemma drain_outgoing_fields:
  "outgoing_queue (drain_outgoing d) = [] \<and>
   destroyed (drain_outgoing d) = destroyed d @ outgoing_queue d \<and>
   incoming_queue (drain_outgoing d) = incoming_queue d \<and>
   maglev_in_flight (drain_outgoing d) = maglev_in_flight d \<and>
   maglev_job_handle (drain_outgoing d) = maglev_job_handle d"
proof (induction d rule: drain_outgoing.induct)
  case (1 d)
  show ?case
  proof (cases "outgoing_queue d")
    case Nil
    then show ?thesis
      by (subst (1 2 3 4 5) drain_outgoing.simps) (simp add: LockedQueue_IsEmpty_def)
  next
    case (Cons job rest)
    then have ne: "\<not> LockedQueue_IsEmpty (outgoing_queue d)"
      and dq: "LockedQueue_Dequeue (outgoing_queue d) = (Some job, rest)"
      by (simp_all add: LockedQueue_IsEmpty_def LockedQueue_Dequeue_def)
    from "1.IH"(2) [OF ne dq [symmetric] refl] Cons ne dq
    show ?thesis
      by (subst (1 2 3 4 5) drain_outgoing.simps) simp
  qed
qed

lemma JobTask_execute_fields:
  "outgoing_queue (JobTask_execute e job d) =
     (if e job = SUCCEEDED then outgoing_queue d @ [job] else outgoing_queue d)"
  "destroyed (JobTask_execute e job d) =
     (if e job = SUCCEEDED then destroyed d else destroyed d @ [job])"
  "incoming_queue (JobTask_execute e job d) = incoming_queue d"
  "maglev_in_flight (JobTask_execute e job d) = maglev_in_flight d"
  "maglev_job_handle (JobTask_execute e job d) = maglev_job_handle d"
  by (simp_all add: JobTask_execute_def Let_def LockedQueue_Enqueue_def)

lemma foldl_JobTask_execute_fields:
  "outgoing_queue (foldl (\<lambda>s job. JobTask_execute e job s) d js) =
     outgoing_queue d @ filter (\<lambda>j. e j = SUCCEEDED) js \<and>
   destroyed (foldl (\<lambda>s job. JobTask_execute e job s) d js) =
     destroyed d @ filter (\<lambda>j. e j \<noteq> SUCCEEDED) js \<and>
   incoming_queue (foldl (\<lambda>s job. JobTask_execute e job s) d js) = incoming_queue d \<and>
   maglev_in_flight (foldl (\<lambda>s job. JobTask_execute e job s) d js) = maglev_in_flight d \<and>
   maglev_job_handle (foldl (\<lambda>s job. JobTask_execute e job s) d js) = maglev_job_handle d"
  by (induction js arbitrary: d) (simp_all add: JobTask_execute_fields)

lemma Flush_maglev:
  "incoming_queue (Maglev_Flush e b d) = [] \<and> outgoing_queue (Maglev_Flush e b d) = [] \<and>
   (b = kDontBlock \<longrightarrow>
      destroyed (Maglev_Flush e b d) = destroyed d @ incoming_queue d @ outgoing_queue d \<and>
      maglev_in_flight (Maglev_Flush e b d) = maglev_in_flight d \<and>
      maglev_job_handle (Maglev_Flush e b d) = maglev_job_handle d) \<and>
   (b = kBlock \<longrightarrow>
      destroyed (Maglev_Flush e b d) =
        destroyed d @ incoming_queue d @ filter (\<lambda>j. e j \<noteq> SUCCEEDED) (maglev_in_flight d)
          @ outgoing_queue d @ filter (\<lambda>j. e j = SUCCEEDED) (maglev_in_flight d) \<and>
      maglev_in_flight (Maglev_Flush e b d) = [] \<and>
      maglev_job_handle (Maglev_Flush e b d) = maglev_job_handle d @ [Cancel, PostJob])"
proof (cases b)
  case kBlock
  note f = foldl_JobTask_execute_fields [of e "(drain_incoming d)\<lparr>maglev_in_flight := []\<rparr>"
      "maglev_in_flight (drain_incoming d)"]
  from kBlock show ?thesis
    unfolding Maglev_Flush_def Let_def JobHandle_Cancel_def
    using f by (simp add: drain_outgoing_fields drain_incoming_fields)
next
  case kDontBlock
  then show ?thesis
    unfolding Maglev_Flush_def Let_def
    by (simp add: drain_outgoing_fields drain_incoming_fields)
qed

lemma JobTask_Run_loop_invariant:
  "\<exists>n\<le>length (incoming_queue d).
     incoming_queue (JobTask_Run_loop y k e d) = drop n (incoming_queue d) \<and>
     outgoing_queue (JobTask_Run_loop y k e d) =
       outgoing_queue d @ filter (\<lambda>j. e j = SUCCEEDED) (take n (incoming_queue d)) \<and>
     destroyed (JobTask_Run_loop y k e d) =
       destroyed d @ filter (\<lambda>j. e j \<noteq> SUCCEEDED) (take n (incoming_queue d))"
proof (induction y k e d rule: JobTask_Run_loop.induct)
  case (1 y k e d)
  show ?case
  proof (cases "\<not> LockedQueue_IsEmpty (incoming_queue d) \<and> \<not> y k")
    case False
    then have "JobTask_Run_loop y k e d = d"
      by (subst JobTask_Run_loop.simps) auto
    then show ?thesis by (intro exI [of _ 0]) simp
  next
    case True
    then obtain job rest where q: "incoming_queue d = job # rest"
      by (cases "incoming_queue d") (auto simp: LockedQueue_IsEmpty_def)
    then have dq: "LockedQueue_Dequeue (incoming_queue d) = (Some job, rest)"
      by (simp add: LockedQueue_Dequeue_def)
    let ?d = "JobTask_execute e job (d\<lparr>incoming_queue := rest\<rparr>)"
    have unfold: "JobTask_Run_loop y k e d = JobTask_Run_loop y (Suc k) e ?d"
      using True dq by (subst JobTask_Run_loop.simps) simp
    from "1.IH" [OF True dq [symmetric] refl]
    obtain n where n: "n \<le> length (incoming_queue ?d)"
      "incoming_queue (JobTask_Run_loop y (Suc k) e ?d) = drop n (incoming_queue ?d)"
      "outgoing_queue (JobTask_Run_loop y (Suc k) e ?d) =
         outgoing_queue ?d @ filter (\<lambda>j. e j = SUCCEEDED) (take n (incoming_queue ?d))"
      "destroyed (JobTask_Run_loop y (Suc k) e ?d) =
         destroyed ?d @ filter (\<lambda>j. e j \<noteq> SUCCEEDED) (take n (incoming_queue ?d))"
      by blast
    show ?thesis
      unfolding unfold using n q
      by (intro exI [of _ "Suc n"]) (simp add: JobTask_execute_fields)
  qed
qed


text \<open>
  C1, as the code has it. In the Maglev worker loop a dequeued job is enqueued on the
  outgoing queue exactly when its Execute phase returned \<open>SUCCEEDED\<close>, and is destroyed
  at once otherwise; the loop, however it is asked to yield, has then processed a prefix
  of the incoming queue, pushed its successful jobs in order and destroyed the others.
  In the optimizing dispatcher \<open>CompileNext\<close> pushes every job it is given to the
  output queue, whatever its Execute phase returned.
\<close>

theorem worker_iteration_push:
  "outgoing_queue (JobTask_execute e job d) =
     (if e job = SUCCEEDED then outgoing_queue d @ [job] else outgoing_queue d) \<and>
   destroyed (JobTask_execute e job d) =
     (if e job = SUCCEEDED then destroyed d else destroyed d @ [job]) \<and>
   (\<exists>n\<le>length (incoming_queue d).
      incoming_queue (JobTask_Run_loop y k e d) = drop n (incoming_queue d) \<and>
      outgoing_queue (JobTask_Run_loop y k e d) =
        outgoing_queue d @ filter (\<lambda>j. e j = SUCCEEDED) (take n (incoming_queue d)) \<and>
      destroyed (JobTask_Run_loop y k e d) =
        destroyed d @ filter (\<lambda>j. e j \<noteq> SUCCEEDED) (take n (incoming_queue d))) \<and>
   output_queue (CompileNext c (Some job) t) = output_queue t @ [job]"
  using JobTask_Run_loop_invariant [of d y k e]
  by (simp add: JobTask_execute_fields CompileNext_Some)

theorem failed_job_pushed_counterexample:
  "ExecuteJob failing_compiler 7 = FAILED \<and>
   output_queue (CompileTask_Run [False, False] failing_compiler
                   (QueueForOptimization example_dispatcher 7)) = [7]"
  by (simp add: failing_compiler_def example_dispatcher_def QueueForOptimization_def
      NextInput_def InputQueueIndex_def CompileNext_def Let_def)

text \<open>
  C4, as the code has it. \<open>Flush\<close> disposes of every pending job of the input queue
  and empties the output queue, disposing of its jobs too, in both modes. When blocking,
  the optimizing dispatcher first joins the job handle and posts a new job (the jobs the
  workers held reach the output queue and are disposed of with it), and the Maglev
  dispatcher cancels the handle and posts a new job; when not blocking, the job handle
  and the jobs the workers hold are left as they are.
\<close>

theorem Flush_effect:
  assumes "queue_inv d"
  shows "(input_queue_length (Flush c b d) = 0 \<and> output_queue (Flush c b d) = [] \<and>
     finalized (Flush c b d) = finalized d \<and>
     (b = kDontBlock \<longrightarrow>
        disposed (Flush c b d) =
          disposed d @ map (\<lambda>j. (j, True)) (queue_contents d @ output_queue d) \<and>
        in_flight (Flush c b d) = in_flight d \<and> job_handle (Flush c b d) = job_handle d) \<and>
     (b = kBlock \<longrightarrow>
        disposed (Flush c b d) =
          disposed d @ map (\<lambda>j. (j, True)) (queue_contents d @ output_queue d @ in_flight d) \<and>
        in_flight (Flush c b d) = [] \<and>
        job_handle (Flush c b d) = job_handle d @ [Join, PostJob])) \<and>
   (incoming_queue (Maglev_Flush e b m) = [] \<and> outgoing_queue (Maglev_Flush e b m) = [] \<and>
    (b = kDontBlock \<longrightarrow>
       destroyed (Maglev_Flush e b m) = destroyed m @ incoming_queue m @ outgoing_queue m \<and>
       maglev_in_flight (Maglev_Flush e b m) = maglev_in_flight m \<and>
       maglev_job_handle (Maglev_Flush e b m) = maglev_job_handle m) \<and>
    (b = kBlock \<longrightarrow>
       destroyed (Maglev_Flush e b m) =
         destroyed m @ incoming_queue m @ filter (\<lambda>j. e j \<noteq> SUCCEEDED) (maglev_in_flight m)
           @ outgoing_queue m @ filter (\<lambda>j. e j = SUCCEEDED) (maglev_in_flight m) \<and>
       maglev_in_flight (Maglev_Flush e b m) = [] \<and>
       maglev_job_handle (Maglev_Flush e b m) = maglev_job_handle m @ [Cancel, PostJob]))"
  using Flush_turbofan [OF assms, of c b] Flush_maglev [of e b m] by blast

theorem Flush_effect_witness:
  "queue_inv (example_dispatcher\<lparr>output_queue := [5], in_flight := [6]\<rparr>) \<and>
   disposed (Flush failing_compiler kBlock (example_dispatcher\<lparr>output_queue := [5], in_flight := [6]\<rparr>))
     = [(5, True), (6, True)] \<and>
   job_handle (Flush failing_compiler kBlock (example_dispatcher\<lparr>output_queue := [5], in_flight := [6]\<rparr>))
     = [PostJob, Join, PostJob] \<and>
   in_flight (Flush failing_compiler kDontBlock (example_dispatcher\<lparr>output_queue := [5], in_flight := [6]\<rparr>))
     = [6] \<and>
   job_handle (Flush failing_compiler kDontBlock (example_dispatcher\<lparr>output_queue := [5], in_flight := [6]\<rparr>))
     = [PostJob] \<and>
   destroyed (Maglev_Flush succeeds_on_even kBlock example_maglev_dispatcher) = [1, 2, 3, 5, 4] \<and>
   maglev_job_handle (Maglev_Flush succeeds_on_even kBlock example_maglev_dispatcher)
     = [PostJob, Cancel, PostJob] \<and>
   maglev_in_flight (Maglev_Flush succeeds_on_even kDontBlock example_maglev_dispatcher) = [3, 4]"
proof -
  have inv: "queue_inv (example_dispatcher\<lparr>output_queue := [5], in_flight := [6]\<rparr>)"
    by (simp add: example_dispatcher_def queue_inv_def)
  from Flush_effect [OF inv, of failing_compiler kBlock succeeds_on_even example_maglev_dispatcher]
    Flush_effect [OF inv, of failing_compiler kDontBlock succeeds_on_even example_maglev_dispatcher]
  show ?thesis
    using inv
    by (simp add: example_dispatcher_def example_maglev_dispatcher_def queue_contents_def
        succeeds_on_even_def)
qed

theorem nonblocking_flush_counterexample:
  "output_queue (Flush failing_compiler kDontBlock (example_dispatcher\<lparr>output_queue := [5]\<rparr>)) = [] \<and>
   disposed (Flush failing_compiler kDontBlock (example_dispatcher\<lparr>output_queue := [5]\<rparr>))
     = [(5, True)] \<and>
   outgoing_queue (Maglev_Flush succeeds_on_even kDontBlock example_maglev_dispatcher) = [] \<and>
   destroyed (Maglev_Flush succeeds_on_even kDontBlock example_maglev_dispatcher) = [1, 2, 5]"
proof -
  have inv: "queue_inv (example_dispatcher\<lparr>output_queue := [5]\<rparr>)"
    by (simp add: example_dispatcher_def queue_inv_def)
  from Flush_turbofan [OF inv, of failing_compiler kDontBlock]
    Flush_maglev [of succeeds_on_even kDontBlock example_maglev_dispatcher]
  show ?thesis
    by (simp add: example_dispatcher_def example_maglev_dispatcher_def queue_contents_def)
qed




subsection \<open>Instruction selection: switches, comparisons and shifts\<close>

lemma filter_less_upt: "w \<le> n \<Longrightarrow> filter (\<lambda>i. i < w) [0 ..< n] = [0 ..< w]"
proof (induction n)
  case 0
  then show ?case by simp
next
  case (Suc n)
  show ?case
  proof (cases "w = Suc n")
    case True
    then show ?thesis by (simp add: filter_id_conv)
  next
    case False
    with Suc show ?thesis by simp
  qed
qed

lemma takeWhile_rev_upt:
  "w \<le> n \<Longrightarrow> length (takeWhile (\<lambda>i. \<not> i < w) (rev [0 ..< n])) = n - w"
proof (induction n)
  case 0
  then show ?case by simp
next
  case (Suc n)
  show ?case
  proof (cases "w = Suc n")
    case True
    then show ?thesis by simp
  next
    case False
    with Suc show ?thesis by (simp add: Suc_diff_le)
  qed
qed

lemma bit_mask_32: "i < 32 \<Longrightarrow> bit (mask w :: 32 word) i \<longleftrightarrow> i < w"
  by (simp add: bit_mask_iff)

lemma CountPopulation_mask:
  assumes "w \<le> 32"
  shows "CountPopulation (mask w) = of_nat w"
proof -
  have "filter (bit (mask w :: 32 word)) [0 ..< 32] = filter (\<lambda>i. i < w) [0 ..< 32]"
    by (rule filter_cong) (auto simp: bit_mask_32)
  then show ?thesis
    using assms by (simp add: CountPopulation_def filter_less_upt del: upt_rec_numeral)
qed

lemma CountLeadingZeros32_mask:
  assumes "w \<le> 32"
  shows "CountLeadingZeros32 (mask w) = of_nat (32 - w)"
proof -
  have "takeWhile (\<lambda>i. \<not> bit (mask w :: 32 word) i) (rev [0 ..< 32])
        = takeWhile (\<lambda>i. \<not> i < w) (rev [0 ..< 32])"
    by (rule takeWhile_cong) (auto simp: bit_mask_32)
  then show ?thesis
    using assms takeWhile_rev_upt [of w 32]
    by (simp add: CountLeadingZeros32_def del: upt_rec_numeral)
qed

lemma shl_of_masked:
  fixes x :: "32 word"
  assumes "32 \<le> k + w"
  shows "push_bit k (x AND mask w) = push_bit k x"
proof (rule bit_eqI)
  fix n
  assume "possible_bit TYPE(32 word) n"
  then have "n < 32" by (simp add: possible_bit_word)
  with assms show "bit (push_bit k (x AND mask w)) n \<longleftrightarrow> bit (push_bit k x) n"
    by (auto simp: bit_push_bit_iff bit_and_iff bit_mask_iff)
qed

lemma VisitSwitch_table_iff:
  "is_table_switch (last (VisitSwitch sel node sw)) \<longleftrightarrow>
     enable_switch_jump_table sel \<and> case_count sw > 0 \<and>
     (10 + 2 * value_range sw) + 3 * 3 \<le> (2 + 2 * case_count sw) + 3 * case_count sw \<and>
     - (2 ^ 31) < sint (min_value sw) \<and> value_range sw \<le> push_bit 16 2"
  by (simp add: VisitSwitch_def Let_def kMaxTableSwitchValueRange_def)

lemma VisitSwitch_binary:
  "\<not> is_table_switch (last (VisitSwitch sel node sw)) \<longleftrightarrow>
     VisitSwitch sel node sw = [EmitBinarySearchSwitch sw (UseRegister (InputAt node 0))]"
  by (simp add: VisitSwitch_def Let_def)

lemma switch_costs_nat:
  fixes vr cc :: size_t
  assumes "unat cc \<le> 2 ^ 32" "vr \<le> push_bit 16 2"
  shows "(10 + 2 * vr) + 3 * 3 \<le> (2 + 2 * cc) + 3 * cc \<longleftrightarrow> 19 + 2 * unat vr \<le> 2 + 5 * unat cc"
proof -
  have vr: "unat vr \<le> 131072" using assms(2) by (simp add: word_le_nat_alt)
  have l: "unat ((10 + 2 * vr) + 3 * 3) = 19 + 2 * unat vr"
    using vr by (simp add: unat_word_ariths)
  have r: "unat ((2 + 2 * cc) + 3 * cc) = 2 + 5 * unat cc"
    using assms(1) by (simp add: unat_word_ariths)
  show ?thesis by (simp only: word_le_nat_alt l r)
qed

text \<open>
  C3, as the code has it. With jump tables enabled, \<open>VisitSwitch\<close> emits a jump table
  exactly when \<open>case_count > 0\<close>, \<open>table_space_cost + 3 * table_time_cost \<le>
  lookup_space_cost + 3 * lookup_time_cost\<close> (with \<open>table_space_cost = 10 + 2 *
  value_range\<close>, \<open>table_time_cost = 3\<close>, \<open>lookup_space_cost = 2 + 2 * case_count\<close>,
  \<open>lookup_time_cost = case_count\<close>, in \<open>size_t\<close> arithmetic), \<open>min_value\<close> is above
  the least \<open>int32_t\<close> and \<open>value_range \<le> 2 << 16\<close>; otherwise it emits the binary
  search alone. For at most \<open>2^32\<close> cases the cost test is \<open>19 + 2 * value_range \<le>
  2 + 5 * case_count\<close> on the numbers. For \<open>case_count = 5\<close> and \<open>value_range = 6\<close>
  the table costs 31 and the lookup 27, so the selector chooses binary search, as it does
  for \<open>case_count = 3\<close> and \<open>value_range = 1000000\<close>.
\<close>

theorem VisitSwitch_decision:
  assumes "enable_switch_jump_table sel"
  shows "(is_table_switch (last (VisitSwitch sel node sw)) \<longleftrightarrow>
            case_count sw > 0 \<and>
            (10 + 2 * value_range sw) + 3 * 3 \<le> (2 + 2 * case_count sw) + 3 * case_count sw \<and>
            - (2 ^ 31) < sint (min_value sw) \<and> value_range sw \<le> push_bit 16 2) \<and>
         (\<not> is_table_switch (last (VisitSwitch sel node sw)) \<longleftrightarrow>
            VisitSwitch sel node sw = [EmitBinarySearchSwitch sw (UseRegister (InputAt node 0))]) \<and>
         (unat (case_count sw) \<le> 2 ^ 32 \<longrightarrow>
            (is_table_switch (last (VisitSwitch sel node sw)) \<longleftrightarrow>
               0 < unat (case_count sw) \<and>
               19 + 2 * unat (value_range sw) \<le> 2 + 5 * unat (case_count sw) \<and>
               - (2 ^ 31) < sint (min_value sw) \<and> unat (value_range sw) \<le> 131072)) \<and>
         (case_count sw = 5 \<and> value_range sw = 6 \<longrightarrow>
            \<not> is_table_switch (last (VisitSwitch sel node sw))) \<and>
         (case_count sw = 3 \<and> value_range sw = 1000000 \<longrightarrow>
            \<not> is_table_switch (last (VisitSwitch sel node sw)))"
proof (intro conjI impI)
  show t: "is_table_switch (last (VisitSwitch sel node sw)) \<longleftrightarrow>
            case_count sw > 0 \<and>
            (10 + 2 * value_range sw) + 3 * 3 \<le> (2 + 2 * case_count sw) + 3 * case_count sw \<and>
            - (2 ^ 31) < sint (min_value sw) \<and> value_range sw \<le> push_bit 16 2"
    using assms by (simp only: VisitSwitch_table_iff simp_thms)
  show "\<not> is_table_switch (last (VisitSwitch sel node sw)) \<longleftrightarrow>
            VisitSwitch sel node sw = [EmitBinarySearchSwitch sw (UseRegister (InputAt node 0))]"
    by (rule VisitSwitch_binary)
  show "is_table_switch (last (VisitSwitch sel node sw)) \<longleftrightarrow>
               0 < unat (case_count sw) \<and>
               19 + 2 * unat (value_range sw) \<le> 2 + 5 * unat (case_count sw) \<and>
               - (2 ^ 31) < sint (min_value sw) \<and> unat (value_range sw) \<le> 131072"
    if cc: "unat (case_count sw) \<le> 2 ^ 32"
  proof (cases "value_range sw \<le> push_bit 16 2")
    case True
    have "unat (value_range sw) \<le> 131072" using True by (simp add: word_le_nat_alt)
    then show ?thesis
      using True switch_costs_nat [OF cc True]
      by (simp only: t word_less_nat_alt) simp
  next
    case False
    then have "\<not> unat (value_range sw) \<le> 131072" by (simp add: word_le_nat_alt)
    with False show ?thesis by (simp only: t simp_thms)
  qed
  show "\<not> is_table_switch (last (VisitSwitch sel node sw))"
    if "case_count sw = 5 \<and> value_range sw = 6"
    using that by (simp add: t)
  show "\<not> is_table_switch (last (VisitSwitch sel node sw))"
    if "case_count sw = 3 \<and> value_range sw = 1000000"
    using that by (simp add: t)
qed

theorem VisitSwitch_decision_witness:
  "enable_switch_jump_table example_selector \<and>
   unat (case_count \<lparr>value_range = 6, case_count = 6, min_value = 0\<rparr>) \<le> 2 ^ 32 \<and>
   is_table_switch (last (VisitSwitch example_selector node_switch
      \<lparr>value_range = 6, case_count = 6, min_value = 0\<rparr>)) \<and>
   \<not> is_table_switch (last (VisitSwitch example_selector node_switch
      \<lparr>value_range = 6, case_count = 5, min_value = 0\<rparr>)) \<and>
   \<not> is_table_switch (last (VisitSwitch example_selector node_switch
      \<lparr>value_range = 1000000, case_count = 3, min_value = 0\<rparr>))"
proof -
  have e: "enable_switch_jump_table example_selector" by (simp add: example_selector_def)
  from VisitSwitch_decision [OF e, of node_switch "\<lparr>value_range = 6, case_count = 6, min_value = 0\<rparr>"]
    VisitSwitch_decision [OF e, of node_switch "\<lparr>value_range = 6, case_count = 5, min_value = 0\<rparr>"]
    VisitSwitch_decision [OF e, of node_switch "\<lparr>value_range = 1000000, case_count = 3, min_value = 0\<rparr>"]
  show ?thesis using e by simp
qed

theorem dense_switch_counterexample:
  "enable_switch_jump_table example_selector \<and>
   VisitSwitch example_selector node_switch \<lparr>value_range = 6, case_count = 5, min_value = 0\<rparr>
     = [EmitBinarySearchSwitch \<lparr>value_range = 6, case_count = 5, min_value = 0\<rparr>
          (UseRegister node_x)]"
  by (simp add: VisitSwitch_def example_selector_def node_switch_def InputAt_def
      kMaxTableSwitchValueRange_def)

lemma IsSet_Commute: "IsSet (Commute cont) = IsSet cont"
  by (simp add: IsSet_def Commute_def)

text \<open>
  C5, as the code has it. When the left operand of a word comparison can be an immediate
  of the instruction code and the right one cannot, \<open>VisitWordCompare\<close> swaps the two
  operands and commutes the continuation's condition. The former left operand is then
  encoded as an immediate when the code is a test instruction, when the condition is
  (in)equality and the continuation sets a register, or when the commuted condition is
  \<open><\<close> or \<open>\<ge>\<close> (signed or unsigned) and the matcher does not find the constant 0; it
  is dropped in favour of a compare-with-zero when the matcher finds 0; in the remaining
  cases it is put in a register.
\<close>

theorem VisitWordCompare_swaps:
  assumes "CanBeImmediate sel (InputAt node 0) opc"
    and "\<not> CanBeImmediate sel (InputAt node 1) opc"
  shows "instr_continuation (VisitWordCompare sel node opc cont commutative) = Some (Commute cont) \<and>
     instr_inputs (VisitWordCompare sel node opc cont commutative) =
       (let a = InputAt node 0; b = InputAt node 1;
            c = CommuteFlagsCondition (condition cont);
            zero = Is sel (snd (Int32BinopMatcher_allow_input_swap sel node)) 0
        in if is_tst sel opc then
             [UseRegister (if opcode b = kTruncateInt64ToInt32 then InputAt b 0 else b),
              UseImmediate a]
           else if (c \<in> {kEqual, kNotEqual} \<and> IsSet cont) \<or>
                   (c \<in> {kSignedLessThan, kSignedGreaterThanOrEqual, kUnsignedLessThan,
                          kUnsignedGreaterThanOrEqual} \<and> \<not> zero) then
             [UseRegister b, UseImmediate a]
           else if zero \<or> (c \<in> {kEqual, kNotEqual} \<and> NumberBinopMatcher_right_IsZero sel node) then
             [UseRegisterOrImmediateZero b]
           else [UseRegister b, UseRegister a])"
  using assms
  by (simp add: VisitWordCompare_def Let_def VisitCompare_def VisitWordCompareZero_def
      IsSet_Commute) (auto simp: Commute_def)

lemma sint_nonneg_uint:
  fixes k :: "32 word"
  assumes "0 \<le> sint k"
  shows "sint k = uint k"
proof (cases "uint k < 2 ^ 31")
  case True
  have "- (2 ^ 31) \<le> (0 :: int)" by simp
  also have "0 \<le> uint k" by simp
  finally have "signed_take_bit 31 (uint k) = uint k"
    using True by (rule signed_take_bit_int_eq_self)
  then show ?thesis by (simp add: sint_uint)
next
  case False
  then have "2 ^ 31 \<le> uint k" by simp
  then have "signed_take_bit 31 (uint k) \<le> uint k - 2 ^ Suc 31"
    by (rule signed_take_bit_int_less_eq)
  then have "signed_take_bit 31 (uint k) \<le> uint k - 4294967296" by simp
  moreover have "uint k < 4294967296" using uint_bounded [of k] by simp
  moreover have "sint k = signed_take_bit 31 (uint k)" by (simp add: sint_uint)
  ultimately have "sint k < 0" by arith
  with assms show ?thesis by arith
qed

lemma in_range_unat:
  fixes k :: "32 word"
  assumes "1 \<le> sint k" "sint k \<le> 31"
  shows "1 \<le> unat k \<and> unat k \<le> 31"
proof -
  have "0 \<le> sint k" using assms(1) by arith
  then have e: "sint k = uint k" by (rule sint_nonneg_uint)
  have u: "unat k = nat (uint k)" by (rule unat_eq_nat_uint)
  from assms show ?thesis unfolding u e by arith
qed

theorem VisitWordCompare_swaps_witness:
  "CanBeImmediate example_selector (InputAt node_5_less_x 0) (kOtherArchOpcode 0) \<and>
   \<not> CanBeImmediate example_selector (InputAt node_5_less_x 1) (kOtherArchOpcode 0) \<and>
   instr_continuation
     (VisitWordCompare example_selector node_5_less_x (kOtherArchOpcode 0) less_than_branch False)
     = Some \<lparr>mode = kFlags_branch, condition = kSignedGreaterThan\<rparr> \<and>
   instr_inputs
     (VisitWordCompare example_selector node_5_less_x (kOtherArchOpcode 0)
        (less_than_branch\<lparr>condition := kSignedGreaterThan\<rparr>) False)
     = [UseRegister node_x, UseImmediate (node_const 5)]"
proof -
  have a: "CanBeImmediate example_selector (InputAt node_5_less_x 0) (kOtherArchOpcode 0)"
    by (simp add: example_selector_def node_5_less_x_def InputAt_def node_const_def)
  have b: "\<not> CanBeImmediate example_selector (InputAt node_5_less_x 1) (kOtherArchOpcode 0)"
    by (simp add: example_selector_def node_5_less_x_def InputAt_def node_x_def)
  from VisitWordCompare_swaps [OF a b, of less_than_branch False]
    VisitWordCompare_swaps [OF a b, of "less_than_branch\<lparr>condition := kSignedGreaterThan\<rparr>" False]
  show ?thesis
    using a b
    by (simp add: less_than_branch_def Commute_def Let_def is_tst_def Is_def IsSet_def)
       (simp add: example_selector_def node_5_less_x_def InputAt_def node_x_def node_const_def)
qed

theorem compare_materializes_counterexample:
  "CanBeImmediate example_selector (InputAt node_5_less_x 0) (kOtherArchOpcode 0) \<and>
   \<not> CanBeImmediate example_selector (InputAt node_5_less_x 1) (kOtherArchOpcode 0) \<and>
   VisitWordCompare example_selector node_5_less_x (kOtherArchOpcode 0) less_than_branch False
     = EmitWithContinuation (kOtherArchOpcode 0) [UseRegister node_x, UseRegister (node_const 5)]
         (Commute less_than_branch)"
  by (simp add: VisitWordCompare_def example_selector_def node_5_less_x_def InputAt_def
      node_x_def node_const_def less_than_branch_def Commute_def Let_def is_tst_def Is_def
      IsSet_def VisitCompare_def)

lemma VisitWord32Shl_fused:
  assumes m: "Int32BinopMatcher sel node = (l, r)"
    and l: "opcode l = kWord32And" "CanCover sel node l"
    and r: "IsInRange sel r 1 31"
    and ml: "Int32BinopMatcher sel l = (x, mk)"
    and mk: "HasResolvedValue sel mk" "ResolvedValue sel mk = mask w"
    and w: "1 \<le> w" "w \<le> 32" "32 \<le> unat (ResolvedValue sel r) + w"
  shows "VisitWord32Shl sel node =
           Emit kRiscvShl32 [DefineAsRegister node] [UseRegister x, UseImmediate r]"
proof -
  let ?k = "ResolvedValue sel r"
  have k: "1 \<le> unat ?k \<and> unat ?k \<le> 31"
    using r by (intro in_range_unat) (simp_all add: IsInRange_def)
  have cp: "CountPopulation (mask w) = of_nat w" using w by (simp add: CountPopulation_mask)
  have cl: "CountLeadingZeros32 (mask w) = of_nat (32 - w)"
    using w by (simp add: CountLeadingZeros32_mask)
  have uw: "unat (of_nat w :: 32 word) = w" using w by (simp add: unat_of_nat)
  have nz: "(of_nat w :: 32 word) \<noteq> 0"
    using uw w by (metis not_one_le_zero unat_0)
  have sum: "(of_nat (32 - w) :: 32 word) + of_nat w = 32"
    using w by (metis le_add_diff_inverse2 of_nat_add of_nat_numeral)
  have "unat (?k + of_nat w) = unat ?k + w"
    using k w uw by (simp add: unat_word_ariths)
  then have ge: "32 \<le> ?k + of_nat w"
    using w by (simp add: word_le_nat_alt)
  show ?thesis
    using m l r ml mk cp cl nz sum ge
    by (simp add: VisitWord32Shl_def Let_def)
qed

lemma VisitWord32Sar_fused:
  assumes m: "Int32BinopMatcher sel node = (l, r)"
    and l: "CanCover sel node l" "opcode l = kWord32Shl"
    and ml: "Int32BinopMatcher sel l = (x, r')"
    and r: "HasResolvedValue sel r" "HasResolvedValue sel r'"
      "ResolvedValue sel r = k" "ResolvedValue sel r' = k"
  shows "(k = 16 \<longrightarrow> VisitWord32Sar sel node =
            Emit kRiscvSignExtendShort [DefineAsRegister node] [UseRegister x]) \<and>
         (k = 24 \<longrightarrow> VisitWord32Sar sel node =
            Emit kRiscvSignExtendByte [DefineAsRegister node] [UseRegister x]) \<and>
         (k = 32 \<longrightarrow> VisitWord32Sar sel node =
            Emit kRiscvShl32 [DefineAsRegister node] [UseRegister x, TempImmediate 0])"
  using assms by (simp add: VisitWord32Sar_def Let_def)

text \<open>
  C6, as the code has it. When the shift covers its left input: a left shift by a
  constant k in 1..31 of \<open>x & mask\<close>, where the mask is the w low bits (\<open>2^w - 1\<close>,
  w from 1 to 32) and \<open>k + w \<ge> 32\<close>, so that the shifted mask reaches or passes the top
  bit, is lowered to the single \<open>kRiscvShl32\<close> of x by k, which computes the same value;
  and an arithmetic right shift by k of \<open>x << k\<close> is lowered to
  \<open>kRiscvSignExtendShort\<close> of x for k = 16, to \<open>kRiscvSignExtendByte\<close> for k = 24,
  and to \<open>kRiscvShl32\<close> of x by the immediate 0 for k = 32.
\<close>

theorem shift_fusion:
  "(Int32BinopMatcher sel node = (l, r) \<and> opcode l = kWord32And \<and> CanCover sel node l \<and>
    IsInRange sel r 1 31 \<and> Int32BinopMatcher sel l = (x, mk) \<and>
    HasResolvedValue sel mk \<and> ResolvedValue sel mk = mask w \<and>
    1 \<le> w \<and> w \<le> 32 \<and> 32 \<le> unat (ResolvedValue sel r) + w \<longrightarrow>
      VisitWord32Shl sel node =
        Emit kRiscvShl32 [DefineAsRegister node] [UseRegister x, UseImmediate r] \<and>
      push_bit (unat (ResolvedValue sel r)) (v AND mask w)
        = push_bit (unat (ResolvedValue sel r)) (v :: 32 word)) \<and>
   (Int32BinopMatcher sel node = (l, r) \<and> CanCover sel node l \<and> opcode l = kWord32Shl \<and>
    Int32BinopMatcher sel l = (x, r') \<and> HasResolvedValue sel r \<and> HasResolvedValue sel r' \<and>
    ResolvedValue sel r = k \<and> ResolvedValue sel r' = k \<longrightarrow>
      (k = 16 \<longrightarrow> VisitWord32Sar sel node =
         Emit kRiscvSignExtendShort [DefineAsRegister node] [UseRegister x]) \<and>
      (k = 24 \<longrightarrow> VisitWord32Sar sel node =
         Emit kRiscvSignExtendByte [DefineAsRegister node] [UseRegister x]) \<and>
      (k = 32 \<longrightarrow> VisitWord32Sar sel node =
         Emit kRiscvShl32 [DefineAsRegister node] [UseRegister x, TempImmediate 0]))"
  using VisitWord32Shl_fused [of sel node l r x mk w] VisitWord32Sar_fused [of sel node l r x r' k]
    shl_of_masked [of "unat (ResolvedValue sel r)" w v]
  by blast

lemma high_mask_counts:
  "CountPopulation 0xFFFF0000 = 16" "CountLeadingZeros32 0xFFFF0000 = 0"
  by code_simp+

theorem high_mask_counterexample:
  "Int32BinopMatcher example_selector node_shl_and_high = (node_and_high, node_const 1) \<and>
   opcode node_and_high = kWord32And \<and>
   CanCover example_selector node_shl_and_high node_and_high \<and>
   Int32BinopMatcher example_selector node_and_high = (node_x, node_const 0xFFFF0000) \<and>
   ResolvedValue example_selector (node_const 0xFFFF0000) = push_bit 16 (mask 16) \<and>
   ResolvedValue example_selector (node_const 1) = 1 \<and>
   VisitWord32Shl example_selector node_shl_and_high =
     Emit kRiscvShl32 [DefineAsRegister node_shl_and_high]
       [UseRegister node_and_high, UseImmediate (node_const 1)] \<and>
   push_bit 1 ((1 :: 32 word) AND push_bit 16 (mask 16)) \<noteq> push_bit 1 1"
  by (simp add: VisitWord32Shl_def example_selector_def node_shl_and_high_def
      node_and_high_def node_const_def node_x_def InputAt_def Let_def IsInRange_def
      high_mask_counts VisitRRO_def UseOperand_def mask_eq_exp_minus_1)

theorem shift_fusion_witness:
  "VisitWord32Shl example_selector node_shl_and_low =
     Emit kRiscvShl32 [DefineAsRegister node_shl_and_low]
       [UseRegister node_x, UseImmediate (node_const 16)] \<and>
   VisitWord32Sar example_selector node_sar_shl_24 =
     Emit kRiscvSignExtendByte [DefineAsRegister node_sar_shl_24] [UseRegister node_x] \<and>
   VisitWord32Sar example_selector (node_sar_shl_by 16) =
     Emit kRiscvSignExtendShort [DefineAsRegister (node_sar_shl_by 16)] [UseRegister node_x] \<and>
   VisitWord32Sar example_selector (node_sar_shl_by 32) =
     Emit kRiscvShl32 [DefineAsRegister (node_sar_shl_by 32)]
       [UseRegister node_x, TempImmediate 0]"
proof -
  have m: "ResolvedValue example_selector (node_const 0xFFFF) = mask 16"
    by (simp add: example_selector_def node_const_def mask_eq_exp_minus_1)
  from shift_fusion [of example_selector node_shl_and_low node_and_low "node_const 16"
      node_x "node_const 0xFFFF" 16 0 "node_const 24" 24]
    shift_fusion [of example_selector node_sar_shl_24 node_shl_24 "node_const 24"
      node_x "node_const 0xFFFF" 16 0 "node_const 24" 24]
    shift_fusion [of example_selector "node_sar_shl_by 16" "node_shl_by 16" "node_const 16"
      node_x "node_const 0xFFFF" 16 0 "node_const 16" 16]
    shift_fusion [of example_selector "node_sar_shl_by 32" "node_shl_by 32" "node_const 32"
      node_x "node_const 0xFFFF" 16 0 "node_const 32" 32]
  show ?thesis
    using m
    by (simp add: example_selector_def node_shl_and_low_def node_and_low_def
        node_sar_shl_24_def node_shl_24_def node_sar_shl_by_def node_shl_by_def
        node_const_def node_x_def InputAt_def IsInRange_def)
qed

subsection \<open>Bounds checks\<close>




























subsection \<open>The input locations of a deopt info\<close>

lemma frame_chain_unfold:
  "frame_chain f = f # (case parent f of None \<Rightarrow> [] | Some p \<Rightarrow> frame_chain p)"
  by (cases f; cases "parent f") auto

lemma size_loop_increment:
  "(case frame of
      kInterpretedFrame n p \<Rightarrow> size0 + (kClosureSize + n)
    | kInlinedArgumentsFrame args p \<Rightarrow> size0 + (kClosureSize + length args)
    | kConstructStubFrame args p \<Rightarrow>
        size0 + (kClosureSize + kReceiverSize + length args + kContextSize)
    | kBuiltinContinuationFrame params p \<Rightarrow> size0 + (length params + kContextSize))
   = size0 + spec_frame_size frame"
  by (cases frame) (simp_all add: kClosureSize_def kReceiverSize_def kContextSize_def)

lemma GetInputLocationsArraySize_loop_eq:
  "GetInputLocationsArraySize_loop size0 frame = size0 + spec_input_locations_size frame"
proof (induction size0 frame rule: GetInputLocationsArraySize_loop.induct)
  case (1 size0 frame)
  show ?case
  proof (cases "parent frame")
    case None
    then show ?thesis
      by (subst GetInputLocationsArraySize_loop.simps, subst frame_chain_unfold [THEN arg_cong, of "\<lambda>xs. size0 + sum_list (map spec_frame_size xs)", folded spec_input_locations_size_def])
         (simp add: size_loop_increment Let_def)
  next
    case (Some p)
    have "GetInputLocationsArraySize_loop size0 frame =
          GetInputLocationsArraySize_loop (size0 + spec_frame_size frame) p"
      using Some by (subst GetInputLocationsArraySize_loop.simps) (simp add: size_loop_increment Let_def)
    also have "\<dots> = size0 + spec_frame_size frame + spec_input_locations_size p"
      using "1.IH" [OF refl Some] by (simp add: size_loop_increment)
    also have "spec_input_locations_size frame = spec_frame_size frame + spec_input_locations_size p"
      unfolding spec_input_locations_size_def
      by (subst frame_chain_unfold) (simp add: Some)
    then have "size0 + spec_frame_size frame + spec_input_locations_size p
               = size0 + spec_input_locations_size frame" by simp
    finally show ?thesis .
  qed
qed

lemma DeoptInfo_init_loop_eq:
  "i \<le> n \<Longrightarrow> length locs = n \<Longrightarrow>
   DeoptInfo_init_loop i n locs = take i locs @ replicate (n - i) (Some (InputLocation None))"
proof (induction i n locs rule: DeoptInfo_init_loop.induct)
  case (1 i n locs)
  show ?case
  proof (cases "i < n")
    case False
    with "1.prems" show ?thesis
      by (subst DeoptInfo_init_loop.simps) simp
  next
    case True
    have "DeoptInfo_init_loop i n locs =
          DeoptInfo_init_loop (i + 1) n (locs[i := Some (InputLocation None)])"
      using True by (subst DeoptInfo_init_loop.simps) simp
    also have "\<dots> = take (i + 1) (locs[i := Some (InputLocation None)])
                     @ replicate (n - (i + 1)) (Some (InputLocation None))"
      using "1.IH" [OF True] True "1.prems" by simp
    also have "take (i + 1) (locs[i := Some (InputLocation None)])
               = take i locs @ [Some (InputLocation None)]"
      using True "1.prems" by (simp add: take_Suc_conv_app_nth)
    also have "(take i locs @ [Some (InputLocation None)])
                 @ replicate (n - (i + 1)) (Some (InputLocation None))
               = take i locs @ replicate (n - i) (Some (InputLocation None))"
      using True by (simp add: replicate_app_Cons_same Suc_diff_Suc flip: replicate_Suc)
    finally show ?thesis .
  qed
qed

text \<open>
  C9. For every deopt frame and chain of parent frames, the input-location array of a
  \<open>DeoptInfo\<close> has exactly as many slots as the frame size summed over the frames by
  type (interpreted: closure + frame-state size; inlined arguments: closure + argument
  count; construct stub: closure + receiver + arguments without receiver + context;
  builtin continuation: parameters + context), and every slot holds a
  default-constructed \<open>InputLocation\<close>.
\<close>

theorem DeoptInfo_input_locations_size:
  "GetInputLocationsArraySize top_fr = spec_input_locations_size top_fr \<and>
   length (input_locations (DeoptInfo_new top_fr fb)) = spec_input_locations_size top_fr \<and>
   input_locations (DeoptInfo_new top_fr fb)
     = replicate (spec_input_locations_size top_fr) (Some (InputLocation None))"
proof -
  have s: "GetInputLocationsArraySize top_fr = spec_input_locations_size top_fr"
    by (simp add: GetInputLocationsArraySize_def GetInputLocationsArraySize_loop_eq)
  have "input_locations (DeoptInfo_new top_fr fb)
        = replicate (spec_input_locations_size top_fr) (Some (InputLocation None))"
    by (simp add: DeoptInfo_new_def s NewArray_def DeoptInfo_init_loop_eq)
  with s show ?thesis by simp
qed

end
